theory Spec2Isabelle
  imports Main "HOL-Library.Word" "HOL-Library.Sublist"
begin

section \<open>JavaScript strings\<close>

text \<open>
  A JavaScript string is a sequence of 16-bit code units. None of the string
  operations of \<^verbatim>\<open>FileUpload.tsx\<close> does arithmetic on them; they are only compared.
  \<open>js\<close> turns an ASCII literal of the source into its code units.
\<close>

type_synonym jschar = "16 word"
type_synonym jsstring = "jschar list"

definition js :: "string \<Rightarrow> jsstring" where
  "js s = map of_char s"

text \<open>Line feed, the argument of \<^verbatim>\<open>split('\n')\<close> and \<^verbatim>\<open>join('\n')\<close>.\<close>

definition LF :: jschar where
  "LF = 0x0A"

definition CR :: jschar where
  "CR = 0x0D"

text \<open>
  ECMAScript \<^verbatim>\<open>LineTerminator\<close>: the characters after which \<^verbatim>\<open>^\<close> matches and before
  which \<^verbatim>\<open>$\<close> matches under the \<^verbatim>\<open>m\<close> flag, and which \<^verbatim>\<open>.\<close> does not match.
\<close>

definition isLineTerminator :: "jschar \<Rightarrow> bool" where
  "isLineTerminator c = (c = 0x0A \<or> c = 0x0D \<or> c = 0x2028 \<or> c = 0x2029)"

text \<open>
  ECMAScript \<^verbatim>\<open>WhiteSpace\<close>: TAB, VT, FF, SP, NBSP, ZWNBSP and the Unicode space
  separators. \<^verbatim>\<open>String.prototype.trim\<close> removes \<^verbatim>\<open>WhiteSpace\<close> and \<^verbatim>\<open>LineTerminator\<close>.
\<close>

definition isWhiteSpace :: "jschar \<Rightarrow> bool" where
  "isWhiteSpace c = (c = 0x09 \<or> c = 0x0B \<or> c = 0x0C \<or> c = 0x20 \<or> c = 0xA0
     \<or> c = 0x1680 \<or> (0x2000 \<le> c \<and> c \<le> 0x200A) \<or> c = 0x202F \<or> c = 0x205F
     \<or> c = 0x3000 \<or> c = 0xFEFF)"

definition isTrimmable :: "jschar \<Rightarrow> bool" where
  "isTrimmable c = (isWhiteSpace c \<or> isLineTerminator c)"

text \<open>\<^verbatim>\<open>s.trim()\<close>\<close>

definition trim :: "jsstring \<Rightarrow> jsstring" where
  "trim s = rev (dropWhile isTrimmable (rev (dropWhile isTrimmable s)))"

text \<open>\<^verbatim>\<open>s.replace(/\r\n/g, '\n')\<close>: every CR LF pair, found left to right, becomes LF.\<close>

fun replaceCRLF :: "jsstring \<Rightarrow> jsstring" where
  "replaceCRLF (c # d # s) =
     (if c = CR \<and> d = LF then LF # replaceCRLF s else c # replaceCRLF (d # s))"
| "replaceCRLF s = s"

text \<open>
  \<^verbatim>\<open>s.replace(/^W.*$/gm, '')\<close> for a literal word \<open>W\<close> without line terminators, as in
  \<^verbatim>\<open>/^#.*$/gm\<close>, \<^verbatim>\<open>/^Introduction:?.*$/gm\<close> and \<^verbatim>\<open>/^Summary:?.*$/gm\<close>. Under the
  \<^verbatim>\<open>m\<close> flag \<^verbatim>\<open>^\<close> matches at the start of the input and after every line terminator,
  \<^verbatim>\<open>.*\<close> runs to the next line terminator or the end of the input, where \<^verbatim>\<open>$\<close> matches
  (an optional \<^verbatim>\<open>:\<close> is swallowed by \<^verbatim>\<open>.*\<close> either way). So every maximal run of
  characters between line terminators that starts with \<open>W\<close> is replaced by the empty
  string, and the line terminators themselves stay.
\<close>

function removeLinesStarting :: "jsstring \<Rightarrow> jsstring \<Rightarrow> jsstring" where
  "removeLinesStarting w s =
     (let line = takeWhile (\<lambda>c. \<not> isLineTerminator c) s;
          line' = (if prefix w line then [] else line)
      in case dropWhile (\<lambda>c. \<not> isLineTerminator c) s of
           [] \<Rightarrow> line'
         | t # rest \<Rightarrow> line' @ t # removeLinesStarting w rest)"
  by pat_completeness auto
termination
proof (relation "measure (\<lambda>(w, s). length s)")
  show "wf (measure (\<lambda>(w, s). length s))" by simp
next
  fix w s :: jsstring and line line' :: jsstring and t :: jschar and rest :: jsstring
  assume "dropWhile (\<lambda>c. \<not> isLineTerminator c) s = t # rest"
  then have "length (t # rest) \<le> length s"
    by (metis length_dropWhile_le)
  then show "((w, rest), (w, s)) \<in> measure (\<lambda>(w, s). length s)"
    by simp
qed

text \<open>
  \<^verbatim>\<open>s.split('\n')\<close>: the pieces between line feeds; the empty string gives one empty
  piece. The result is never the empty list, so the first branch of the \<open>case\<close> is
  never taken.
\<close>

fun split_nl :: "jsstring \<Rightarrow> jsstring list" where
  "split_nl [] = [[]]"
| "split_nl (c # s) =
     (if c = LF then [] # split_nl s
      else (case split_nl s of [] \<Rightarrow> [[c]] | l # ls \<Rightarrow> (c # l) # ls))"

text \<open>\<^verbatim>\<open>pieces.join(sep)\<close>\<close>

fun join :: "jsstring \<Rightarrow> jsstring list \<Rightarrow> jsstring" where
  "join sep [] = []"
| "join sep [l] = l"
| "join sep (l # ls) = l @ sep @ join sep ls"

section \<open>The response formatter\<close>

text \<open>
  Modelled from the spec: \<^verbatim>\<open>AssistantType\<close> is declared in \<^verbatim>\<open>../config/assistants\<close>,
  which is not among the sources. Its three values are the kinds of section 3 of the
  specification, the keys of \<^verbatim>\<open>initialResults\<close> and the cases of the \<^verbatim>\<open>switch\<close>.
\<close>

datatype AssistantType = INSIGHTS | ACHIEVEMENTS | RESEARCH_IDEAS

text \<open>\<^verbatim>\<open>\d\<close> of a regular expression without the \<^verbatim>\<open>u\<close> flag: the ASCII digits.\<close>

definition isDigit :: "jschar \<Rightarrow> bool" where
  "isDigit c = (0x30 \<le> c \<and> c \<le> 0x39)"

text \<open>\<^verbatim>\<open>[-*\<bullet>]\<close>: hyphen-minus, asterisk, and the bullet U+2022.\<close>

definition isBullet :: "jschar \<Rightarrow> bool" where
  "isBullet c = (c = 0x2D \<or> c = 0x2A \<or> c = 0x2022)"

text \<open>
  \<^verbatim>\<open>/^(\d+\.|[-*\<bullet>])/.test(t)\<close>: \<open>t\<close> starts with one or more digits and a dot, or with
  a bullet character. The digits are matched greedily, and giving some back cannot help:
  the character after a shorter run is a digit, not a dot.
\<close>

definition startsWithMarker :: "jsstring \<Rightarrow> bool" where
  "startsWithMarker t =
     (case t of
        [] \<Rightarrow> False
      | c # cs \<Rightarrow>
          isBullet c \<or>
          (isDigit c \<and> (case dropWhile isDigit cs of [] \<Rightarrow> False | d # _ \<Rightarrow> d = 0x2E)))"

text \<open>The callback of \<^verbatim>\<open>lines.map\<close> (lines 26 to 35).\<close>

definition formatLine :: "jsstring \<Rightarrow> jsstring" where
  "formatLine line =
     (if trim line = [] then []
      else if \<not> startsWithMarker (trim line) then js ''- '' @ trim line
      else trim line)"

text \<open>Lines 16 to 21: the value of \<^verbatim>\<open>formattedContent\<close> when the lines are split.\<close>

definition stripPreamble :: "jsstring \<Rightarrow> jsstring" where
  "stripPreamble content =
     (let formattedContent = replaceCRLF (trim content);
          formattedContent = trim (removeLinesStarting (js ''#'') formattedContent);
          formattedContent = trim (removeLinesStarting (js ''Introduction'') formattedContent);
          formattedContent = trim (removeLinesStarting (js ''Summary'') formattedContent)
      in formattedContent)"

text \<open>
  Lines 24 to 37: the value of \<^verbatim>\<open>formatted\<close> before the \<^verbatim>\<open>switch\<close>.
  \<^verbatim>\<open>filter(Boolean)\<close> keeps the non-empty strings.
\<close>

definition formatBody :: "jsstring \<Rightarrow> jsstring" where
  "formatBody content =
     (let lines = split_nl (stripPreamble content)
      in join [LF] (filter (\<lambda>l. l \<noteq> []) (map formatLine lines)))"

text \<open>The \<^verbatim>\<open>switch\<close> of lines 40 to 50: the heading line and the blank line after it.\<close>

fun sectionHeader :: "AssistantType \<Rightarrow> jsstring" where
  "sectionHeader INSIGHTS = js ''## Key Research Insights'' @ [LF, LF]"
| "sectionHeader ACHIEVEMENTS = js ''## Notable Achievements'' @ [LF, LF]"
| "sectionHeader RESEARCH_IDEAS = js ''## Research Opportunities'' @ [LF, LF]"

definition validateAndFormatResponse :: "jsstring \<Rightarrow> AssistantType \<Rightarrow> jsstring" where
  "validateAndFormatResponse content type = sectionHeader type @ formatBody content"

section \<open>The state of the component\<close>

text \<open>
  Modelled from the spec: the status of an \<^verbatim>\<open>AnalysisResult\<close>, whose declaration in
  \<^verbatim>\<open>../config/assistants\<close> is not among the sources: the four values of section 3 of
  the specification, which are the strings \<^verbatim>\<open>'idle'\<close>, \<^verbatim>\<open>'loading'\<close>, \<^verbatim>\<open>'complete'\<close> and
  \<^verbatim>\<open>'error'\<close> that the component writes and tests.
\<close>

datatype Status = Idle | Loading | Complete | Error

text \<open>A thrown value: an \<^verbatim>\<open>Error\<close> object with its message, or anything else.\<close>

datatype thrown = ErrorObject jsstring | NonError

text \<open>\<^verbatim>\<open>err instanceof Error ? err.message : fallback\<close>\<close>

fun errorMessage :: "thrown \<Rightarrow> jsstring \<Rightarrow> jsstring" where
  "errorMessage (ErrorObject message) fallback = message"
| "errorMessage NonError fallback = fallback"

text \<open>The selected \<^verbatim>\<open>File\<close>: its name and its declared media type.\<close>

record File =
  name :: jsstring
  type :: jsstring

text \<open>
  One segment of a message's content: its \<^verbatim>\<open>type\<close> tag and \<^verbatim>\<open>text?.value\<close>, absent
  when the segment has no text.
\<close>

record MessageContent =
  type :: jsstring
  textValue :: "jsstring option"

text \<open>
  A message of the thread. \<open>content\<close> is \<open>None\<close> when the field is missing or null, the
  case that \<^verbatim>\<open>!assistantMessage?.content\<close> guards against; an array, even an empty one,
  is truthy.
\<close>

record Message =
  role :: jsstring
  content :: "MessageContent list option"

text \<open>
  Modelled from the spec: \<^verbatim>\<open>AnalysisResult\<close>, declared in \<^verbatim>\<open>../config/assistants\<close>, with
  the fields of section 3 of the specification, as \<^verbatim>\<open>initialResults\<close> and the state
  updates write them. \<open>error\<close> is \<open>None\<close> when the object has no such field.
\<close>

record AnalysisResult =
  type :: AssistantType
  content :: jsstring
  status :: Status
  error :: "jsstring option"

type_synonym Results = "AssistantType \<Rightarrow> AnalysisResult"

definition initialResults :: Results where
  "initialResults t = \<lparr>type = t, content = [], status = Idle, error = None\<rparr>"

text \<open>
  The two \<^verbatim>\<open>useState\<close> cells of the component, \<^verbatim>\<open>file\<close> (here \<open>currentFile\<close>) and
  \<^verbatim>\<open>results\<close>.
\<close>

record State =
  currentFile :: "File option"
  results :: Results

text \<open>
  \<^verbatim>\<open>handleFileChange\<close>. \<open>files\<close> is \<^verbatim>\<open>e.target.files\<close>: null, or a list whose first
  element may be missing.
\<close>

definition handleFileChange :: "File list option \<Rightarrow> 'a State_scheme \<Rightarrow> 'a State_scheme" where
  "handleFileChange files s =
     (case files of
        Some (selectedFile # _) \<Rightarrow>
          if File.type selectedFile = js ''application/pdf''
          then s\<lparr>currentFile := Some selectedFile, results := initialResults\<rparr>
          else s\<lparr>currentFile := None,
                 results := initialResults
                   (INSIGHTS := (initialResults INSIGHTS)
                      \<lparr>status := Error, error := Some (js ''Please upload a PDF file'')\<rparr>)\<rparr>
      | _ \<Rightarrow> s)"

section \<open>The job runner\<close>

text \<open>
  What the remote service answers to the calls of one run of \<^verbatim>\<open>processWithAssistant\<close>:
  each call resolves (\<open>Inr\<close>) or rejects with a thrown value (\<open>Inl\<close>).
  \<open>runsRetrieve\<close> lists the run status returned by the first, second, ... call of
  \<^verbatim>\<open>runs.retrieve\<close>; when the list is used up the service has not answered yet.
\<close>

record Remote =
  threadsCreate :: "thrown + unit"
  messagesCreate :: "thrown + unit"
  runsCreate :: "thrown + unit"
  runsRetrieve :: "(thrown + jsstring) list"
  messagesList :: "thrown + Message list"

text \<open>The template literal \<^verbatim>\<open>${assistantType}\<close>\<close>

fun typeName :: "AssistantType \<Rightarrow> jsstring" where
  "typeName INSIGHTS = js ''INSIGHTS''"
| "typeName ACHIEVEMENTS = js ''ACHIEVEMENTS''"
| "typeName RESEARCH_IDEAS = js ''RESEARCH_IDEAS''"

text \<open>
  The \<^verbatim>\<open>while\<close> loop of lines 185 to 192, entered with the status of the last retrieval.
  \<open>None\<close>: the loop is still waiting for an answer. The test for \<^verbatim>\<open>"failed"\<close> is inside
  the loop, on the status just retrieved there.
\<close>

fun pollLoop :: "AssistantType \<Rightarrow> jsstring \<Rightarrow> (thrown + jsstring) list \<Rightarrow> (thrown + unit) option" where
  "pollLoop assistantType runStatus [] =
     (if runStatus = js ''queued'' \<or> runStatus = js ''in_progress'' then None
      else Some (Inr ()))"
| "pollLoop assistantType runStatus (r # rs) =
     (if runStatus = js ''queued'' \<or> runStatus = js ''in_progress''
      then (case r of
              Inl err \<Rightarrow> Some (Inl err)
            | Inr runStatus' \<Rightarrow>
                if runStatus' = js ''failed''
                then Some (Inl (ErrorObject (js ''Analysis failed for '' @ typeName assistantType)))
                else pollLoop assistantType runStatus' rs)
      else Some (Inr ()))"

text \<open>\<^verbatim>\<open>item.type === 'text' ? item.text?.value || "" : ""\<close>\<close>

definition itemText :: "MessageContent \<Rightarrow> jsstring" where
  "itemText item =
     (if MessageContent.type item = js ''text''
      then (case textValue item of None \<Rightarrow> [] | Some v \<Rightarrow> v)
      else [])"

text \<open>
  Lines 87 to 206: the body of the \<^verbatim>\<open>try\<close> after the first state update, up to the
  formatted content. \<open>Some (Inl err)\<close>: \<open>err\<close> was thrown; \<open>None\<close>: still polling.
\<close>

definition analysis :: "Remote \<Rightarrow> AssistantType \<Rightarrow> (thrown + jsstring) option" where
  "analysis remote assistantType =
     (case threadsCreate remote of Inl err \<Rightarrow> Some (Inl err) | Inr _ \<Rightarrow>
     (case messagesCreate remote of Inl err \<Rightarrow> Some (Inl err) | Inr _ \<Rightarrow>
     (case runsCreate remote of Inl err \<Rightarrow> Some (Inl err) | Inr _ \<Rightarrow>
     (case runsRetrieve remote of [] \<Rightarrow> None | r # rs \<Rightarrow>
     (case r of Inl err \<Rightarrow> Some (Inl err) | Inr runStatus \<Rightarrow>
     (case pollLoop assistantType runStatus rs of
        None \<Rightarrow> None
      | Some (Inl err) \<Rightarrow> Some (Inl err)
      | Some (Inr _) \<Rightarrow>
     (case messagesList remote of Inl err \<Rightarrow> Some (Inl err) | Inr messages \<Rightarrow>
     (case find (\<lambda>msg. role msg = js ''assistant'') messages of
        None \<Rightarrow>
          Some (Inl (ErrorObject (js ''No response received for '' @ typeName assistantType)))
      | Some assistantMessage \<Rightarrow>
     (case Message.content assistantMessage of
        None \<Rightarrow>
          Some (Inl (ErrorObject (js ''No response received for '' @ typeName assistantType)))
      | Some items \<Rightarrow>
          Some (Inr (validateAndFormatResponse (join [LF, LF] (map itemText items))
                       assistantType)))))))))))"

text \<open>The three state updates of \<^verbatim>\<open>processWithAssistant\<close>, each a function of \<^verbatim>\<open>prev\<close>.\<close>

definition setLoading :: "AssistantType \<Rightarrow> Results \<Rightarrow> Results" where
  "setLoading assistantType prev =
     prev(assistantType := (prev assistantType)\<lparr>status := Loading\<rparr>)"

definition setComplete :: "AssistantType \<Rightarrow> jsstring \<Rightarrow> Results \<Rightarrow> Results" where
  "setComplete assistantType formattedContent prev =
     prev(assistantType :=
       \<lparr>type = assistantType, content = formattedContent, status = Complete, error = None\<rparr>)"

definition setError :: "AssistantType \<Rightarrow> thrown \<Rightarrow> Results \<Rightarrow> Results" where
  "setError assistantType err prev =
     prev(assistantType := (prev assistantType)
       \<lparr>status := Error, error := Some (errorMessage err (js ''Analysis failed''))\<rparr>)"

text \<open>The end of a job: the update of line 208 or the one of the \<^verbatim>\<open>catch\<close>.\<close>

fun settle :: "AssistantType \<Rightarrow> thrown + jsstring \<Rightarrow> Results \<Rightarrow> Results" where
  "settle assistantType (Inr formattedContent) prev = setComplete assistantType formattedContent prev"
| "settle assistantType (Inl err) prev = setError assistantType err prev"

text \<open>
  \<^verbatim>\<open>processWithAssistant\<close> run from start to end with no other update in between.
  \<open>None\<close>: the job has not settled.
\<close>

definition processWithAssistant :: "Remote \<Rightarrow> AssistantType \<Rightarrow> Results \<Rightarrow> Results option" where
  "processWithAssistant remote assistantType prev =
     (case analysis remote assistantType of
        None \<Rightarrow> None
      | Some outcome \<Rightarrow> Some (settle assistantType outcome (setLoading assistantType prev)))"

section \<open>The upload orchestrator\<close>

text \<open>
  Modelled from the spec: \<^verbatim>\<open>Object.keys(ASSISTANTS)\<close>. \<^verbatim>\<open>ASSISTANTS\<close> is declared in
  \<^verbatim>\<open>../config/assistants\<close>; by section 6 of the specification it maps each kind to an
  assistant identifier, so it has one key for each kind.
\<close>

definition assistantKeys :: "AssistantType list" where
  "assistantKeys = [INSIGHTS, ACHIEVEMENTS, RESEARCH_IDEAS]"

text \<open>The update of the \<^verbatim>\<open>catch\<close> of \<^verbatim>\<open>handleUpload\<close>: every key of \<^verbatim>\<open>prev\<close>.\<close>

definition setAllError :: "thrown \<Rightarrow> Results \<Rightarrow> Results" where
  "setAllError err prev =
     (\<lambda>key. (prev key)\<lparr>status := Error, error := Some (errorMessage err (js ''Upload failed''))\<rparr>)"

text \<open>
  The component together with its asynchronous work in flight: the number of calls of
  \<^verbatim>\<open>handleUpload\<close> waiting for \<^verbatim>\<open>openai.files.create\<close>, and the kinds of the jobs that
  have started and not settled.
\<close>

record Config = State +
  uploads :: nat
  jobs :: "AssistantType list"

definition initialConfig :: Config where
  "initialConfig = \<lparr>currentFile = None, results = initialResults, uploads = 0, jobs = []\<rparr>"

text \<open>
  \<^verbatim>\<open>handleUpload\<close> up to its first \<^verbatim>\<open>await\<close>: nothing without a file; the constructor of
  the client may throw inside the \<^verbatim>\<open>try\<close>; otherwise the upload is in flight.
\<close>

definition handleUploadStart :: "thrown + unit \<Rightarrow> Config \<Rightarrow> Config" where
  "handleUploadStart client c =
     (case currentFile c of
        None \<Rightarrow> c
      | Some _ \<Rightarrow>
          (case client of
             Inl err \<Rightarrow> c\<lparr>results := setAllError err (results c)\<rparr>
           | Inr _ \<Rightarrow> c\<lparr>uploads := Suc (uploads c)\<rparr>))"

text \<open>
  \<^verbatim>\<open>openai.files.create\<close> resolved: \<^verbatim>\<open>processWithAssistant\<close> is called for every key, and
  each call runs to its first \<^verbatim>\<open>await\<close>, after the update to loading.
\<close>

definition handleUploadResolved :: "Config \<Rightarrow> Config" where
  "handleUploadResolved c =
     c\<lparr>uploads := uploads c - 1,
       results := fold setLoading assistantKeys (results c),
       jobs := assistantKeys @ jobs c\<rparr>"

text \<open>\<^verbatim>\<open>openai.files.create\<close> rejected: the \<^verbatim>\<open>catch\<close> of \<^verbatim>\<open>handleUpload\<close>.\<close>

definition handleUploadRejected :: "thrown \<Rightarrow> Config \<Rightarrow> Config" where
  "handleUploadRejected err c =
     c\<lparr>uploads := uploads c - 1, results := setAllError err (results c)\<rparr>"

text \<open>
  Between two \<^verbatim>\<open>await\<close>s the code runs without interruption, so the component moves in
  these steps. An event that cannot happen in a configuration (an upload answered when
  none is in flight, a job settling that has not started or whose run has not ended)
  leaves the configuration as it is.
\<close>

datatype Event =
    FileChange "File list option"
  | Analyze "thrown + unit"
  | UploadResolved
  | UploadRejected thrown
  | JobSettled AssistantType Remote

fun step :: "Event \<Rightarrow> Config \<Rightarrow> Config" where
  "step (FileChange files) c = handleFileChange files c"
| "step (Analyze client) c = handleUploadStart client c"
| "step UploadResolved c = (if uploads c = 0 then c else handleUploadResolved c)"
| "step (UploadRejected err) c = (if uploads c = 0 then c else handleUploadRejected err c)"
| "step (JobSettled assistantType remote) c =
     (if assistantType \<in> set (jobs c)
      then (case analysis remote assistantType of
              None \<Rightarrow> c
            | Some outcome \<Rightarrow>
                c\<lparr>jobs := remove1 assistantType (jobs c),
                  results := settle assistantType outcome (results c)\<rparr>)
      else c)"

fun run :: "Event list \<Rightarrow> Config \<Rightarrow> Config" where
  "run [] c = c"
| "run (ev # evs) c = run evs (step ev c)"

section \<open>Example inputs\<close>

text \<open>
  A remote service that accepts the thread, the message and the run, then answers the
  successive status retrievals with \<open>statuses\<close> and the listing of the thread with
  \<open>messages\<close>.
\<close>

definition remoteAnswering :: "jsstring list \<Rightarrow> Message list \<Rightarrow> Remote" where
  "remoteAnswering statuses messages =
     \<lparr>threadsCreate = Inr (), messagesCreate = Inr (), runsCreate = Inr (),
      runsRetrieve = map Inr statuses, messagesList = Inr messages\<rparr>"

text \<open>A message with one text segment.\<close>

definition textMessage :: "jsstring \<Rightarrow> jsstring \<Rightarrow> Message" where
  "textMessage r t =
     \<lparr>role = r,
      Message.content = Some [\<lparr>MessageContent.type = js ''text'', textValue = Some t\<rparr>]\<rparr>"

text \<open>A message with one image segment and no text.\<close>

definition imageMessage :: "jsstring \<Rightarrow> Message" where
  "imageMessage r =
     \<lparr>role = r,
      Message.content = Some [\<lparr>MessageContent.type = js ''image_file'', textValue = None\<rparr>]\<rparr>"

definition pdfFile :: File where
  "pdfFile = \<lparr>name = js ''paper.pdf'', File.type = js ''application/pdf''\<rparr>"

definition pngFile :: File where
  "pngFile = \<lparr>name = js ''scan.png'', File.type = js ''image/png''\<rparr>"

text \<open>A run that is queued, then completes with one line of text from the assistant.\<close>

definition remoteCompleted :: Remote where
  "remoteCompleted =
     remoteAnswering [js ''queued'', js ''completed''] [textMessage (js ''assistant'') (js ''Done'')]"

text \<open>A run that is queued, then fails.\<close>

definition remoteFailed :: Remote where
  "remoteFailed = remoteAnswering [js ''queued'', js ''failed''] []"

text \<open>
  A run that has already failed at the first retrieval, in a thread that holds a message
  of the assistant.
\<close>

definition remoteFailedAtOnce :: Remote where
  "remoteFailedAtOnce =
     remoteAnswering [js ''failed''] [textMessage (js ''assistant'') (js ''Done'')]"

text \<open>One analysis of a PDF in which \<open>ACHIEVEMENTS\<close> fails and the other two kinds complete.\<close>

definition firstAnalysis :: "Event list" where
  "firstAnalysis =
     [FileChange (Some [pdfFile]), Analyze (Inr ()), UploadResolved,
      JobSettled INSIGHTS remoteCompleted, JobSettled ACHIEVEMENTS remoteFailed,
      JobSettled RESEARCH_IDEAS remoteCompleted]"

section \<open>What holds of every result\<close>

definition wellFormed :: "AnalysisResult \<Rightarrow> bool" where
  "wellFormed r \<longleftrightarrow>
     (status r = Complete \<longrightarrow> content r \<noteq> [] \<and> error r = None) \<and>
     (status r = Idle \<longrightarrow> content r = [] \<and> error r = None) \<and>
     (status r = Error \<longrightarrow> error r \<noteq> None)"

section \<open>Lines of a text\<close>

text \<open>
  Some line of \<open>s\<close> other than the first, in the sense of \<^verbatim>\<open>^\<close> under the \<^verbatim>\<open>m\<close> flag,
  starts with \<open>w\<close>: \<open>w\<close> follows a line terminator.
\<close>

definition startsInnerLine :: "jsstring \<Rightarrow> jsstring \<Rightarrow> bool" where
  "startsInnerLine w s \<longleftrightarrow> (\<exists>u t v. s = u @ t # v \<and> isLineTerminator t \<and> prefix w v)"

text \<open>Some line of \<open>s\<close>, the first included, starts with \<open>w\<close>.\<close>

definition startsLine :: "jsstring \<Rightarrow> jsstring \<Rightarrow> bool" where
  "startsLine w s \<longleftrightarrow> prefix w s \<or> startsInnerLine w s"

text \<open>The words whose lines lines 19 to 21 remove.\<close>

definition preambleWords :: "jsstring list" where
  "preambleWords = [js ''#'', js ''Introduction'', js ''Summary'']"

text \<open>The lines of the body: the array that line 37 joins.\<close>

definition outputLines :: "jsstring \<Rightarrow> jsstring list" where
  "outputLines s = filter (\<lambda>l. l \<noteq> []) (map formatLine (split_nl s))"

text \<open>The non-blank lines of a text, each trimmed.\<close>

definition trimmedLines :: "jsstring \<Rightarrow> jsstring list" where
  "trimmedLines s = filter (\<lambda>l. l \<noteq> []) (map trim (split_nl s))"

text \<open>What the callback of \<^verbatim>\<open>lines.map\<close> makes of a trimmed, non-blank line.\<close>

definition markLine :: "jsstring \<Rightarrow> jsstring" where
  "markLine l = (if startsWithMarker l then l else js ''- '' @ l)"

section \<open>Evaluating the definitions\<close>

lemmas string_defs =
  js_def LF_def CR_def isLineTerminator_def isWhiteSpace_def isTrimmable_def trim_def
  isDigit_def isBullet_def startsWithMarker_def formatLine_def stripPreamble_def
  formatBody_def validateAndFormatResponse_def removeLinesStarting.simps

declare removeLinesStarting.simps [simp del]

lemmas job_defs =
  analysis_def processWithAssistant_def remoteAnswering_def textMessage_def
  imageMessage_def itemText_def setLoading_def setComplete_def setError_def
  initialResults_def remoteCompleted_def remoteFailed_def remoteFailedAtOnce_def

lemmas step_defs =
  handleFileChange_def handleUploadStart_def handleUploadResolved_def
  handleUploadRejected_def setAllError_def assistantKeys_def initialConfig_def
  pdfFile_def pngFile_def firstAnalysis_def

section \<open>The formatter on the example of the specification\<close>

text \<open>
  C8: the formatter, applied to the three lines \<^verbatim>\<open>Point one\<close>, \<^verbatim>\<open>2. Point two\<close> and
  \<^verbatim>\<open>- Point three\<close> separated by line feeds, with kind \<open>INSIGHTS\<close>, returns the heading
  \<^verbatim>\<open>## Key Research Insights\<close>, a blank line, and the lines \<^verbatim>\<open>- Point one\<close>,
  \<^verbatim>\<open>2. Point two\<close> and \<^verbatim>\<open>- Point three\<close>.
\<close>

theorem format_scenario_insights:
  "validateAndFormatResponse
     (js ''Point one\<newline>2. Point two\<newline>- Point three'') INSIGHTS =
   js ''## Key Research Insights\<newline>\<newline>- Point one\<newline>2. Point two\<newline>- Point three''"
  by (simp add: string_defs)

section \<open>Selecting a file\<close>

text \<open>
  C7: when the selected file's declared media type is not exactly \<^verbatim>\<open>application/pdf\<close>, no
  file is stored, the \<open>INSIGHTS\<close> result has status error with the message
  \<^verbatim>\<open>Please upload a PDF file\<close>, and the \<open>ACHIEVEMENTS\<close> and \<open>RESEARCH_IDEAS\<close> results are
  idle with empty content and no error.
\<close>

theorem handleFileChange_not_pdf:
  assumes "File.type selectedFile \<noteq> js ''application/pdf''"
  shows "currentFile (handleFileChange (Some (selectedFile # others)) s) = None
    \<and> results (handleFileChange (Some (selectedFile # others)) s) INSIGHTS =
        \<lparr>type = INSIGHTS, content = [], status = Error,
         error = Some (js ''Please upload a PDF file'')\<rparr>
    \<and> results (handleFileChange (Some (selectedFile # others)) s) ACHIEVEMENTS =
        \<lparr>type = ACHIEVEMENTS, content = [], status = Idle, error = None\<rparr>
    \<and> results (handleFileChange (Some (selectedFile # others)) s) RESEARCH_IDEAS =
        \<lparr>type = RESEARCH_IDEAS, content = [], status = Idle, error = None\<rparr>"
  using assms by (simp add: handleFileChange_def initialResults_def)

theorem handleFileChange_not_pdf_witness:
  "File.type pngFile \<noteq> js ''application/pdf''
   \<and> currentFile (handleFileChange (Some [pngFile]) initialConfig) = None
   \<and> status (results (handleFileChange (Some [pngFile]) initialConfig) INSIGHTS) = Error
   \<and> status (results (handleFileChange (Some [pngFile]) initialConfig) ACHIEVEMENTS) = Idle"
  using handleFileChange_not_pdf [of pngFile "[]" initialConfig]
  by (simp add: js_def pngFile_def)

text \<open>
  C10: selecting a file whose declared media type is exactly \<^verbatim>\<open>application/pdf\<close> stores
  that file and sets every result to its initial value (idle, empty content, no error),
  whatever the results were before.
\<close>

theorem handleFileChange_pdf:
  assumes "File.type selectedFile = js ''application/pdf''"
  shows "currentFile (handleFileChange (Some (selectedFile # others)) s) = Some selectedFile
    \<and> (\<forall>t. results (handleFileChange (Some (selectedFile # others)) s) t =
          \<lparr>type = t, content = [], status = Idle, error = None\<rparr>)"
  using assms by (simp add: handleFileChange_def initialResults_def)

theorem handleFileChange_pdf_witness:
  "File.type pdfFile = js ''application/pdf''
   \<and> content (results (run firstAnalysis initialConfig) INSIGHTS) \<noteq> []
   \<and> currentFile (handleFileChange (Some [pdfFile]) (run firstAnalysis initialConfig)) =
       Some pdfFile
   \<and> results (handleFileChange (Some [pdfFile]) (run firstAnalysis initialConfig)) INSIGHTS =
       \<lparr>type = INSIGHTS, content = [], status = Idle, error = None\<rparr>"
proof -
  have "File.type pdfFile = js ''application/pdf''"
    by (simp add: pdfFile_def)
  moreover have "content (results (run firstAnalysis initialConfig) INSIGHTS) \<noteq> []"
    by (simp add: step_defs job_defs string_defs)
  ultimately show ?thesis
    using handleFileChange_pdf [of pdfFile "[]" "run firstAnalysis initialConfig"]
    by simp
qed

section \<open>One job\<close>

lemma sectionHeader_nonempty: "sectionHeader t \<noteq> []"
  by (cases t) (simp_all add: js_def)

lemma validateAndFormatResponse_nonempty: "validateAndFormatResponse s t \<noteq> []"
  by (simp add: validateAndFormatResponse_def sectionHeader_nonempty)

lemma analysis_content_nonempty:
  "analysis remote t = Some (Inr formatted) \<Longrightarrow> formatted \<noteq> []"
  by (auto simp add: analysis_def validateAndFormatResponse_nonempty
      split: sum.splits list.splits option.splits)

lemma settle_other: "k \<noteq> t \<Longrightarrow> settle k outcome r t = r t"
  by (cases outcome) (simp_all add: setComplete_def setError_def)

lemma settle_status:
  "status (settle t outcome r t) = (case outcome of Inl _ \<Rightarrow> Error | Inr _ \<Rightarrow> Complete)"
  by (cases outcome) (simp_all add: setComplete_def setError_def)

text \<open>
  A status \<^verbatim>\<open>failed\<close> retrieved inside the loop, after a status \<^verbatim>\<open>queued\<close> or
  \<^verbatim>\<open>in_progress\<close>, ends the job with the message \<^verbatim>\<open>Analysis failed for\<close> and the kind.
\<close>

lemma pollLoop_failed_inside:
  assumes "runStatus = js ''queued'' \<or> runStatus = js ''in_progress''"
  shows "pollLoop t runStatus (Inr (js ''failed'') # rs) =
     Some (Inl (ErrorObject (js ''Analysis failed for '' @ typeName t)))"
  using assms by auto

text \<open>
  C3: a run whose status is \<^verbatim>\<open>failed\<close> ends the job of its kind with status error. The
  code does not do so when \<^verbatim>\<open>failed\<close> is the status of the very first retrieval: the
  loop, which holds the only test for \<^verbatim>\<open>failed\<close>, is not entered, and with a message of
  the assistant in the thread the \<open>ACHIEVEMENTS\<close> job ends with status complete.
\<close>

theorem failed_at_first_retrieval_completes:
  "processWithAssistant remoteFailedAtOnce ACHIEVEMENTS initialResults =
   Some (initialResults(ACHIEVEMENTS :=
     \<lparr>type = ACHIEVEMENTS, content = js ''## Notable Achievements\<newline>\<newline>- Done'',
      status = Complete, error = None\<rparr>))"
  by (simp add: job_defs string_defs)

text \<open>
  C4, as the code has it: when the run has ended and the thread holds no message of the
  assistant, or the first such message has no content field, the job ends with status
  error and the message \<^verbatim>\<open>No response received for\<close> and the kind; the other results
  are as they were.
\<close>

theorem no_assistant_message_is_error:
  assumes "threadsCreate remote = Inr ()" and "messagesCreate remote = Inr ()"
    and "runsCreate remote = Inr ()"
    and "runsRetrieve remote = Inr runStatus # rs"
    and "pollLoop t runStatus rs = Some (Inr ())"
    and "messagesList remote = Inr messages"
    and "find (\<lambda>msg. role msg = js ''assistant'') messages = None
       \<or> (\<exists>m. find (\<lambda>msg. role msg = js ''assistant'') messages = Some m
              \<and> Message.content m = None)"
  shows "processWithAssistant remote t prev =
     Some (prev(t := (prev t)\<lparr>status := Error,
        error := Some (js ''No response received for '' @ typeName t)\<rparr>))"
  using assms
  by (auto simp add: analysis_def processWithAssistant_def setLoading_def setError_def)

theorem no_assistant_message_is_error_witness:
  "processWithAssistant
     (remoteAnswering [js ''completed''] [textMessage (js ''user'') (js ''Analyze'')])
     INSIGHTS initialResults =
   Some (initialResults(INSIGHTS := (initialResults INSIGHTS)\<lparr>status := Error,
     error := Some (js ''No response received for '' @ typeName INSIGHTS)\<rparr>))"
  using no_assistant_message_is_error
    [of "remoteAnswering [js ''completed''] [textMessage (js ''user'') (js ''Analyze'')]"
        "js ''completed''" "[]" INSIGHTS "[textMessage (js ''user'') (js ''Analyze'')]"
        initialResults]
  by (simp add: remoteAnswering_def textMessage_def js_def)

text \<open>
  C4 as stated fails: a first message of the assistant that holds an image and no text
  does not end the job with an error. The job completes, and its content is the heading
  and the blank line with nothing after them.
\<close>

theorem no_text_segment_completes:
  "processWithAssistant
     (remoteAnswering [js ''completed''] [imageMessage (js ''assistant'')])
     INSIGHTS initialResults =
   Some (initialResults(INSIGHTS :=
     \<lparr>type = INSIGHTS, content = js ''## Key Research Insights\<newline>\<newline>'',
      status = Complete, error = None\<rparr>))"
  by (simp add: job_defs string_defs)

section \<open>The upload\<close>

lemma fold_setLoading: "fold setLoading assistantKeys r t = (r t)\<lparr>status := Loading\<rparr>"
  by (cases t) (simp_all add: assistantKeys_def setLoading_def)

text \<open>
  C6: with a file stored, when the upload call throws, no step of \<^verbatim>\<open>handleUpload\<close> sets a
  status to loading or starts a job (the results are untouched while the upload is in
  flight, and the jobs in flight are the same before and after), and in the end every
  kind has status error with the same message, that of the thrown error.
\<close>

theorem upload_rejected_all_error:
  assumes "currentFile c = Some f"
  shows "results (step (Analyze (Inr ())) c) = results c
    \<and> jobs (step (Analyze (Inr ())) c) = jobs c
    \<and> jobs (step (UploadRejected err) (step (Analyze (Inr ())) c)) = jobs c
    \<and> (\<forall>t. status (results (step (UploadRejected err) (step (Analyze (Inr ())) c)) t) = Error
          \<and> error (results (step (UploadRejected err) (step (Analyze (Inr ())) c)) t) =
              Some (errorMessage err (js ''Upload failed'')))"
  using assms by (simp add: handleUploadStart_def handleUploadRejected_def setAllError_def)

theorem upload_rejected_all_error_witness:
  "currentFile (step (FileChange (Some [pdfFile])) initialConfig) = Some pdfFile
   \<and> jobs (step (UploadRejected (ErrorObject (js ''Connection error'')))
        (step (Analyze (Inr ())) (step (FileChange (Some [pdfFile])) initialConfig))) = []
   \<and> (\<forall>t. status (results (step (UploadRejected (ErrorObject (js ''Connection error'')))
        (step (Analyze (Inr ())) (step (FileChange (Some [pdfFile])) initialConfig))) t) = Error
      \<and> error (results (step (UploadRejected (ErrorObject (js ''Connection error'')))
        (step (Analyze (Inr ())) (step (FileChange (Some [pdfFile])) initialConfig))) t) =
          Some (js ''Connection error''))"
proof -
  have stored: "currentFile (step (FileChange (Some [pdfFile])) initialConfig) = Some pdfFile"
    by (simp add: handleFileChange_def pdfFile_def)
  have none: "jobs (step (FileChange (Some [pdfFile])) initialConfig) = []"
    by (simp add: handleFileChange_def pdfFile_def initialConfig_def)
  show ?thesis
    using upload_rejected_all_error [OF stored, of "ErrorObject (js ''Connection error'')"]
      stored none
    by simp
qed

section \<open>Every reachable configuration\<close>

lemma settle_wellFormed:
  assumes "\<forall>t. wellFormed (r t)" and "analysis remote k = Some outcome"
  shows "wellFormed (settle k outcome r t)"
proof (cases outcome)
  case (Inl err)
  with assms(1) show ?thesis by (simp add: setError_def wellFormed_def)
next
  case (Inr formatted)
  with assms(2) have "formatted \<noteq> []" by (simp add: analysis_content_nonempty)
  with Inr assms(1) show ?thesis by (simp add: setComplete_def wellFormed_def)
qed

lemma step_wellFormed:
  assumes "\<forall>t. wellFormed (results c t)"
  shows "wellFormed (results (step ev c) t)"
proof (cases ev)
  case (FileChange files)
  with assms show ?thesis
    by (auto simp add: handleFileChange_def initialResults_def wellFormed_def
        split: option.splits list.splits)
next
  case (Analyze client)
  with assms show ?thesis
    by (auto simp add: handleUploadStart_def setAllError_def wellFormed_def
        split: option.splits sum.splits)
next
  case UploadResolved
  with assms show ?thesis
    by (simp add: handleUploadResolved_def fold_setLoading wellFormed_def)
next
  case (UploadRejected err)
  with assms show ?thesis
    by (simp add: handleUploadRejected_def setAllError_def wellFormed_def)
next
  case (JobSettled k remote)
  with assms show ?thesis
    by (auto simp add: settle_wellFormed split: option.splits)
qed

lemma run_wellFormed:
  "\<forall>t. wellFormed (results c t) \<Longrightarrow> wellFormed (results (run evs c) t)"
proof (induction evs arbitrary: c t)
  case Nil
  then show ?case by simp
next
  case (Cons ev evs)
  have "\<forall>t. wellFormed (results (step ev c) t)"
    using Cons.prems by (simp add: step_wellFormed)
  then show ?case using Cons.IH by simp
qed

lemma initial_wellFormed: "wellFormed (results initialConfig t)"
  by (simp add: initialConfig_def initialResults_def wellFormed_def)

lemma firstAnalysis_results:
  "results (run firstAnalysis initialConfig) INSIGHTS =
     \<lparr>type = INSIGHTS, content = js ''## Key Research Insights\<newline>\<newline>- Done'',
      status = Complete, error = None\<rparr>"
  "results (run firstAnalysis initialConfig) ACHIEVEMENTS =
     \<lparr>type = ACHIEVEMENTS, content = [], status = Error,
      error = Some (js ''Analysis failed for ACHIEVEMENTS'')\<rparr>"
  by (simp_all add: step_defs job_defs string_defs)

lemma firstAnalysis_config:
  "currentFile (run firstAnalysis initialConfig) = Some pdfFile"
  "uploads (run firstAnalysis initialConfig) = 0"
  by (simp_all add: step_defs job_defs string_defs)

lemma run_snoc: "run (evs @ [ev]) c = step ev (run evs c)"
  by (induction evs arbitrary: c) simp_all

lemma run_append: "run (evs @ evs') c = run evs' (run evs c)"
  by (induction evs arbitrary: c) simp_all

lemma second_analysis_results:
  "results (run (firstAnalysis @ [Analyze (Inr ()), UploadResolved]) initialConfig) t =
     (results (run firstAnalysis initialConfig) t)\<lparr>status := Loading\<rparr>"
  by (simp add: run_append firstAnalysis_config handleUploadStart_def
      handleUploadResolved_def fold_setLoading)

text \<open>
  C1, as the code has it: in every configuration that the component reaches from its
  initial one, and for every kind, a result with status complete has non-empty content
  and no error field, a result with status idle has empty content and no error field,
  and a result with status error has its error field set. Nothing is said of a result
  with status loading, nor of the content of a result with status error.
\<close>

theorem reachable_results_wellFormed:
  "(status (results (run evs initialConfig) t) = Complete \<longrightarrow>
      content (results (run evs initialConfig) t) \<noteq> []
      \<and> error (results (run evs initialConfig) t) = None)
   \<and> (status (results (run evs initialConfig) t) = Idle \<longrightarrow>
      content (results (run evs initialConfig) t) = []
      \<and> error (results (run evs initialConfig) t) = None)
   \<and> (status (results (run evs initialConfig) t) = Error \<longrightarrow>
      error (results (run evs initialConfig) t) \<noteq> None)"
  using run_wellFormed [of initialConfig evs t] initial_wellFormed
  by (simp add: wellFormed_def)

theorem reachable_results_wellFormed_witness:
  "status (results (run firstAnalysis initialConfig) INSIGHTS) = Complete
   \<and> content (results (run firstAnalysis initialConfig) INSIGHTS) \<noteq> []
   \<and> error (results (run firstAnalysis initialConfig) INSIGHTS) = None
   \<and> status (results (run firstAnalysis initialConfig) ACHIEVEMENTS) = Error
   \<and> error (results (run firstAnalysis initialConfig) ACHIEVEMENTS) \<noteq> None
   \<and> status (results (run [] initialConfig) RESEARCH_IDEAS) = Idle
   \<and> content (results (run [] initialConfig) RESEARCH_IDEAS) = []"
proof -
  have "status (results (run firstAnalysis initialConfig) INSIGHTS) = Complete"
    and "status (results (run firstAnalysis initialConfig) ACHIEVEMENTS) = Error"
    by (simp_all add: firstAnalysis_results)
  moreover have "status (results (run [] initialConfig) RESEARCH_IDEAS) = Idle"
    by (simp add: initialConfig_def initialResults_def)
  ultimately show ?thesis
    using reachable_results_wellFormed [of firstAnalysis INSIGHTS]
      reachable_results_wellFormed [of firstAnalysis ACHIEVEMENTS]
      reachable_results_wellFormed [of "[]" RESEARCH_IDEAS]
    by simp
qed

text \<open>
  C1 as stated fails: when the stored file is analysed a second time, the jobs start
  with the results of the first analysis. \<open>INSIGHTS\<close>, complete before, is loading with
  its old content, and \<open>ACHIEVEMENTS\<close>, failed before, is loading with its old error.
\<close>

theorem second_analysis_loading_keeps_content:
  "results (run (firstAnalysis @ [Analyze (Inr ()), UploadResolved]) initialConfig) INSIGHTS =
     \<lparr>type = INSIGHTS, content = js ''## Key Research Insights\<newline>\<newline>- Done'',
      status = Loading, error = None\<rparr>
   \<and> results (run (firstAnalysis @ [Analyze (Inr ()), UploadResolved]) initialConfig)
       ACHIEVEMENTS =
     \<lparr>type = ACHIEVEMENTS, content = [], status = Loading,
      error = Some (js ''Analysis failed for ACHIEVEMENTS'')\<rparr>"
  by (simp add: second_analysis_results firstAnalysis_results)

section \<open>Status transitions\<close>

lemma in_remove1D: "t \<in> set (remove1 k xs) \<Longrightarrow> t \<in> set xs"
  using set_remove1_subset by fastforce

text \<open>A job is in flight only after its kind has been set to loading.\<close>

lemma step_jobs:
  assumes "t \<in> set (jobs (step ev c))"
  shows "t \<in> set (jobs c) \<or> status (results (step ev c) t) = Loading"
proof (cases ev)
  case (FileChange files)
  with assms show ?thesis
    by (auto simp add: handleFileChange_def split: option.splits list.splits if_splits)
next
  case (Analyze client)
  with assms show ?thesis
    by (auto simp add: handleUploadStart_def split: option.splits sum.splits)
next
  case UploadResolved
  with assms show ?thesis
    by (auto simp add: handleUploadResolved_def fold_setLoading split: if_splits)
next
  case (UploadRejected err)
  with assms show ?thesis
    by (auto simp add: handleUploadRejected_def split: if_splits)
next
  case (JobSettled k remote)
  with assms show ?thesis
    by (auto split: if_splits option.splits dest: in_remove1D)
qed

lemma job_was_loading:
  "t \<in> set (jobs (run evs initialConfig)) \<Longrightarrow>
     \<exists>n\<le>length evs. status (results (run (take n evs) initialConfig) t) = Loading"
proof (induction evs rule: rev_induct)
  case Nil
  then show ?case by (simp add: initialConfig_def)
next
  case (snoc ev evs)
  from snoc.prems have "t \<in> set (jobs (step ev (run evs initialConfig)))"
    by (simp add: run_snoc)
  then consider "t \<in> set (jobs (run evs initialConfig))"
    | "status (results (step ev (run evs initialConfig)) t) = Loading"
    using step_jobs by blast
  then show ?case
  proof cases
    case 1
    with snoc.IH obtain n where "n \<le> length evs"
      and "status (results (run (take n evs) initialConfig) t) = Loading" by blast
    then show ?thesis by (intro exI [of _ n]) simp
  next
    case 2
    then show ?thesis by (intro exI [of _ "length (evs @ [ev])"]) (simp add: run_snoc)
  qed
qed

text \<open>The steps that can change a status to each of the four values.\<close>

lemma step_to_complete:
  assumes "status (results (step ev c) t) = Complete" and "status (results c t) \<noteq> Complete"
  shows "(\<exists>remote. ev = JobSettled t remote) \<and> t \<in> set (jobs c)"
proof (cases ev)
  case (FileChange files)
  with assms show ?thesis
    by (auto simp add: handleFileChange_def initialResults_def
        split: option.splits list.splits if_splits)
next
  case (Analyze client)
  with assms show ?thesis
    by (auto simp add: handleUploadStart_def setAllError_def split: option.splits sum.splits)
next
  case UploadResolved
  with assms show ?thesis
    by (auto simp add: handleUploadResolved_def fold_setLoading split: if_splits)
next
  case (UploadRejected err)
  with assms show ?thesis
    by (auto simp add: handleUploadRejected_def setAllError_def split: if_splits)
next
  case (JobSettled k remote)
  with assms show ?thesis
    by (cases "k = t")
      (auto simp add: settle_other settle_status split: if_splits option.splits sum.splits)
qed

lemma step_to_error:
  assumes "status (results (step ev c) t) = Error" and "status (results c t) \<noteq> Error"
  shows "((\<exists>remote. ev = JobSettled t remote) \<and> t \<in> set (jobs c))
    \<or> (\<exists>err. ev = UploadRejected err) \<or> (\<exists>err. ev = Analyze (Inl err))
    \<or> (t = INSIGHTS \<and> (\<exists>files. ev = FileChange files))"
proof (cases ev)
  case (FileChange files)
  with assms show ?thesis
    by (cases t) (auto simp add: handleFileChange_def initialResults_def
        split: option.splits list.splits if_splits)
next
  case (Analyze client)
  with assms show ?thesis
    by (auto simp add: handleUploadStart_def setAllError_def split: option.splits sum.splits)
next
  case UploadResolved
  with assms show ?thesis
    by (auto simp add: handleUploadResolved_def fold_setLoading split: if_splits)
next
  case (UploadRejected err)
  with assms show ?thesis by simp
next
  case (JobSettled k remote)
  with assms show ?thesis
    by (cases "k = t")
      (auto simp add: settle_other settle_status split: if_splits option.splits sum.splits)
qed

lemma step_to_loading:
  assumes "status (results (step ev c) t) = Loading" and "status (results c t) \<noteq> Loading"
  shows "ev = UploadResolved"
proof (cases ev)
  case (FileChange files)
  with assms show ?thesis
    by (cases t) (auto simp add: handleFileChange_def initialResults_def
        split: option.splits list.splits if_splits)
next
  case (Analyze client)
  with assms show ?thesis
    by (auto simp add: handleUploadStart_def setAllError_def split: option.splits sum.splits)
next
  case UploadResolved
  then show ?thesis by simp
next
  case (UploadRejected err)
  with assms show ?thesis
    by (auto simp add: handleUploadRejected_def setAllError_def split: if_splits)
next
  case (JobSettled k remote)
  with assms show ?thesis
    by (cases "k = t")
      (auto simp add: settle_other settle_status split: if_splits option.splits sum.splits)
qed

lemma step_to_idle:
  assumes "status (results (step ev c) t) = Idle" and "status (results c t) \<noteq> Idle"
  shows "\<exists>files. ev = FileChange files"
proof (cases ev)
  case (FileChange files)
  then show ?thesis by simp
next
  case (Analyze client)
  with assms show ?thesis
    by (auto simp add: handleUploadStart_def setAllError_def split: option.splits sum.splits)
next
  case UploadResolved
  with assms show ?thesis
    by (auto simp add: handleUploadResolved_def fold_setLoading split: if_splits)
next
  case (UploadRejected err)
  with assms show ?thesis
    by (auto simp add: handleUploadRejected_def setAllError_def split: if_splits)
next
  case (JobSettled k remote)
  with assms show ?thesis
    by (cases "k = t")
      (auto simp add: settle_other settle_status split: if_splits option.splits sum.splits)
qed

text \<open>
  C2, as the code has it: in every execution from the initial configuration, a step
  changes the status of a kind to complete only when a job of that kind settles, and
  the kind has then had status loading at some earlier point of the execution; to error
  only when such a job settles, when the upload is rejected or the client cannot be
  built, or, for \<open>INSIGHTS\<close>, on a file selection; to loading only when an upload has
  resolved and the jobs start, whatever the status was; and to idle only on a file
  selection.
\<close>

theorem status_changes:
  "(status (results (step ev (run evs initialConfig)) t) = Complete
      \<and> status (results (run evs initialConfig) t) \<noteq> Complete \<longrightarrow>
        (\<exists>remote. ev = JobSettled t remote)
        \<and> (\<exists>n\<le>length evs. status (results (run (take n evs) initialConfig) t) = Loading))
   \<and> (status (results (step ev (run evs initialConfig)) t) = Error
      \<and> status (results (run evs initialConfig) t) \<noteq> Error \<longrightarrow>
        ((\<exists>remote. ev = JobSettled t remote)
          \<and> (\<exists>n\<le>length evs. status (results (run (take n evs) initialConfig) t) = Loading))
        \<or> (\<exists>err. ev = UploadRejected err) \<or> (\<exists>err. ev = Analyze (Inl err))
        \<or> (t = INSIGHTS \<and> (\<exists>files. ev = FileChange files)))
   \<and> (status (results (step ev (run evs initialConfig)) t) = Loading
      \<and> status (results (run evs initialConfig) t) \<noteq> Loading \<longrightarrow> ev = UploadResolved)
   \<and> (status (results (step ev (run evs initialConfig)) t) = Idle
      \<and> status (results (run evs initialConfig) t) \<noteq> Idle \<longrightarrow>
        (\<exists>files. ev = FileChange files))"
  using step_to_complete [of ev "run evs initialConfig" t]
    step_to_error [of ev "run evs initialConfig" t]
    step_to_loading [of ev "run evs initialConfig" t]
    step_to_idle [of ev "run evs initialConfig" t]
    job_was_loading [of t evs]
  by blast

lemma started_results:
  "status (results (run [FileChange (Some [pdfFile]), Analyze (Inr ()), UploadResolved]
      initialConfig) INSIGHTS) = Loading"
  by (simp add: step_defs job_defs js_def)

lemma started_then_settled:
  "status (results (step (JobSettled INSIGHTS remoteCompleted)
      (run [FileChange (Some [pdfFile]), Analyze (Inr ()), UploadResolved] initialConfig))
      INSIGHTS) = Complete"
  by (simp add: step_defs job_defs string_defs)

theorem status_changes_witness:
  "status (results (step (JobSettled INSIGHTS remoteCompleted)
      (run [FileChange (Some [pdfFile]), Analyze (Inr ()), UploadResolved] initialConfig))
      INSIGHTS) = Complete
   \<and> status (results (run [FileChange (Some [pdfFile]), Analyze (Inr ()), UploadResolved]
      initialConfig) INSIGHTS) \<noteq> Complete
   \<and> (\<exists>n\<le>length [FileChange (Some [pdfFile]), Analyze (Inr ()), UploadResolved].
        status (results (run (take n
          [FileChange (Some [pdfFile]), Analyze (Inr ()), UploadResolved]) initialConfig)
          INSIGHTS) = Loading)"
proof -
  have after: "status (results (step (JobSettled INSIGHTS remoteCompleted)
      (run [FileChange (Some [pdfFile]), Analyze (Inr ()), UploadResolved] initialConfig))
      INSIGHTS) = Complete"
    by (rule started_then_settled)
  have before: "status (results (run [FileChange (Some [pdfFile]), Analyze (Inr ()),
      UploadResolved] initialConfig) INSIGHTS) \<noteq> Complete"
    using started_results by simp
  from after before
    status_changes
      [of "JobSettled INSIGHTS remoteCompleted"
          "[FileChange (Some [pdfFile]), Analyze (Inr ()), UploadResolved]" INSIGHTS]
  have "\<exists>n\<le>length [FileChange (Some [pdfFile]), Analyze (Inr ()), UploadResolved].
        status (results (run (take n
          [FileChange (Some [pdfFile]), Analyze (Inr ()), UploadResolved]) initialConfig)
          INSIGHTS) = Loading"
    by blast
  with after before show ?thesis by blast
qed

text \<open>
  C2 as stated fails in each of its parts: selecting a file that is not a PDF moves
  \<open>INSIGHTS\<close> from idle to error in one step; a second analysis of the stored file moves
  \<open>INSIGHTS\<close> from complete to loading; and a job that settles after another PDF has been
  selected moves its kind from idle to complete in one step.
\<close>

theorem idle_to_error_directly:
  "status (results initialConfig INSIGHTS) = Idle
   \<and> status (results (step (FileChange (Some [pngFile])) initialConfig) INSIGHTS) = Error
   \<and> status (results (run firstAnalysis initialConfig) INSIGHTS) = Complete
   \<and> status (results (run (firstAnalysis @ [Analyze (Inr ()), UploadResolved]) initialConfig)
        INSIGHTS) = Loading
   \<and> status (results (run [FileChange (Some [pdfFile]), Analyze (Inr ()), UploadResolved,
        FileChange (Some [pdfFile])] initialConfig) INSIGHTS) = Idle
   \<and> status (results (step (JobSettled INSIGHTS remoteCompleted)
        (run [FileChange (Some [pdfFile]), Analyze (Inr ()), UploadResolved,
          FileChange (Some [pdfFile])] initialConfig)) INSIGHTS) = Complete"
proof (intro conjI)
  show "status (results initialConfig INSIGHTS) = Idle"
    by (simp add: initialConfig_def initialResults_def)
  show "status (results (step (FileChange (Some [pngFile])) initialConfig) INSIGHTS) = Error"
    by (simp add: step_defs job_defs js_def)
  show "status (results (run firstAnalysis initialConfig) INSIGHTS) = Complete"
    by (simp add: firstAnalysis_results)
  show "status (results (run (firstAnalysis @ [Analyze (Inr ()), UploadResolved]) initialConfig)
        INSIGHTS) = Loading"
    by (simp add: second_analysis_results)
  show "status (results (run [FileChange (Some [pdfFile]), Analyze (Inr ()), UploadResolved,
        FileChange (Some [pdfFile])] initialConfig) INSIGHTS) = Idle"
    by (simp add: step_defs job_defs js_def)
  show "status (results (step (JobSettled INSIGHTS remoteCompleted)
        (run [FileChange (Some [pdfFile]), Analyze (Inr ()), UploadResolved,
          FileChange (Some [pdfFile])] initialConfig)) INSIGHTS) = Complete"
    by (simp add: step_defs job_defs string_defs)
qed

section \<open>Trimming\<close>

lemma trim_Nil [simp]: "trim [] = []"
  by (simp add: trim_def)

lemma trim_Cons_space: "isTrimmable c \<Longrightarrow> trim (c # s) = trim s"
  by (simp add: trim_def)

lemma trim_snoc_space:
  assumes "isTrimmable c"
  shows "trim (s @ [c]) = trim s"
proof (cases "\<forall>x\<in>set s. isTrimmable x")
  case True
  then have "dropWhile isTrimmable s = []" by simp
  moreover from True assms have "dropWhile isTrimmable (s @ [c]) = []" by simp
  ultimately show ?thesis by (simp only: trim_def)
next
  case False
  with assms show ?thesis by (auto simp add: trim_def dropWhile_append)
qed

lemma trim_decomp:
  "\<exists>a b. s = a @ trim s @ b \<and> (\<forall>c\<in>set a. isTrimmable c) \<and> (\<forall>c\<in>set b. isTrimmable c)"
proof -
  let ?d = "dropWhile isTrimmable s"
  let ?a = "takeWhile isTrimmable s"
  let ?b = "rev (takeWhile isTrimmable (rev ?d))"
  have "s = ?a @ ?d" by simp
  moreover have "rev ?d = takeWhile isTrimmable (rev ?d) @ dropWhile isTrimmable (rev ?d)"
    by simp
  then have "?d = trim s @ ?b"
    by (metis rev_append rev_rev_ident trim_def)
  moreover have "\<forall>c\<in>set ?a. isTrimmable c" by (auto dest: set_takeWhileD)
  moreover have "\<forall>c\<in>set ?b. isTrimmable c" by (auto dest: set_takeWhileD)
  ultimately show ?thesis by metis
qed

lemma set_trim: "set (trim s) \<subseteq> set s"
  using trim_decomp [of s] by (metis Un_upper1 Un_upper2 set_append subset_trans)

lemma trim_ends:
  assumes "trim s \<noteq> []"
  shows "\<not> isTrimmable (hd (trim s))" and "\<not> isTrimmable (last (trim s))"
proof -
  let ?d = "dropWhile isTrimmable s"
  let ?e = "dropWhile isTrimmable (rev ?d)"
  from assms have e: "?e \<noteq> []" by (simp add: trim_def)
  then have d: "?d \<noteq> []" by (cases ?d) simp_all
  have "\<not> isTrimmable (hd ?e)" using e by (rule hd_dropWhile)
  then show "\<not> isTrimmable (last (trim s))"
    using e by (simp add: trim_def last_rev)
  have "last ?e = last (rev ?d)"
    using e by (metis last_appendR takeWhile_dropWhile_id)
  also have "\<dots> = hd ?d" using d by (simp add: last_rev)
  finally have "hd (trim s) = hd ?d" using e by (simp add: trim_def hd_rev)
  moreover have "\<not> isTrimmable (hd ?d)" using d by (rule hd_dropWhile)
  ultimately show "\<not> isTrimmable (hd (trim s))" by simp
qed

lemma trim_id:
  assumes "s \<noteq> []" and "\<not> isTrimmable (hd s)" and "\<not> isTrimmable (last s)"
  shows "trim s = s"
proof -
  from assms(1,2) have "dropWhile isTrimmable s = s"
    by (cases s) simp_all
  moreover have "dropWhile isTrimmable (rev s) = rev s"
  proof -
    from assms(1) obtain xs x where "s = xs @ [x]" by (metis rev_exhaust)
    with assms(3) show ?thesis by simp
  qed
  ultimately show ?thesis by (simp add: trim_def)
qed

section \<open>Splitting and joining\<close>

lemma split_nl_nonempty [simp]: "split_nl s \<noteq> []"
  by (induction s) (auto split: list.splits)

lemma split_nl_no_LF: "l \<in> set (split_nl s) \<Longrightarrow> LF \<notin> set l"
  by (induction s arbitrary: l) (auto split: list.splits if_splits)

lemma split_nl_line: "LF \<notin> set l \<Longrightarrow> split_nl l = [l]"
  by (induction l) auto

lemma split_nl_append: "split_nl (u @ LF # v) = split_nl u @ split_nl v"
  by (induction u) (auto split: list.splits)

lemma split_nl_first: "LF \<notin> set l \<Longrightarrow> split_nl (l @ LF # v) = l # split_nl v"
  by (simp add: split_nl_append split_nl_line)

lemma join_Cons: "ls \<noteq> [] \<Longrightarrow> join sep (l # ls) = l @ sep @ join sep ls"
  by (cases ls) simp_all

lemma split_nl_join:
  "ls \<noteq> [] \<Longrightarrow> \<forall>l\<in>set ls. LF \<notin> set l \<Longrightarrow> split_nl (join [LF] ls) = ls"
proof (induction ls)
  case Nil
  then show ?case by simp
next
  case (Cons l ls)
  show ?case
  proof (cases "ls = []")
    case True
    with Cons.prems show ?thesis by (simp add: split_nl_line)
  next
    case False
    with Cons show ?thesis by (simp add: join_Cons split_nl_first)
  qed
qed

lemma split_nl_snoc:
  "split_nl (s @ [c]) =
     (if c = LF then split_nl s @ [[]] else butlast (split_nl s) @ [last (split_nl s) @ [c]])"
proof (induction s)
  case Nil
  then show ?case by simp
next
  case (Cons d s)
  then show ?case
    by (cases "split_nl s") (auto split: list.splits)
qed

lemma join_hd_Cons: "join sep ((c # l) # ls) = c # join sep (l # ls)"
  by (cases ls) simp_all

lemma join_split_nl: "join [LF] (split_nl s) = s"
proof (induction s)
  case Nil
  then show ?case by simp
next
  case (Cons c s)
  then show ?case
    by (cases "split_nl s") (auto simp add: join_Cons join_hd_Cons split: list.splits)
qed

lemma in_join_infix: "l \<in> set ls \<Longrightarrow> \<exists>a b. join sep ls = a @ l @ b"
proof (induction ls)
  case Nil
  then show ?case by simp
next
  case (Cons k ls)
  show ?case
  proof (cases "ls = []")
    case True
    with Cons.prems show ?thesis by (auto intro: exI [of _ "[]"])
  next
    case False
    show ?thesis
    proof (cases "l = k")
      case True
      then show ?thesis using False by (auto simp add: join_Cons intro: exI [of _ "[]"])
    next
      case False
      with Cons obtain a b where "join sep ls = a @ l @ b" by auto
      then have "join sep (k # ls) = (k @ sep @ a) @ l @ b"
        using \<open>ls \<noteq> []\<close> by (simp add: join_Cons)
      then show ?thesis by blast
    qed
  qed
qed

lemma split_nl_infix: "l \<in> set (split_nl s) \<Longrightarrow> \<exists>a b. s = a @ l @ b"
  using in_join_infix [of l "split_nl s" "[LF]"] by (simp add: join_split_nl)

section \<open>Removing the lines that start with a word\<close>

lemma removeLinesStarting_last:
  assumes "\<forall>c\<in>set l. \<not> isLineTerminator c"
  shows "removeLinesStarting w l = (if prefix w l then [] else l)"
proof -
  from assms have tw: "takeWhile (\<lambda>c. \<not> isLineTerminator c) l = l"
    and dw: "dropWhile (\<lambda>c. \<not> isLineTerminator c) l = []" by simp_all
  show ?thesis by (subst removeLinesStarting.simps) (simp add: tw dw)
qed

lemma removeLinesStarting_line:
  assumes "\<forall>c\<in>set l. \<not> isLineTerminator c" and "isLineTerminator t"
  shows "removeLinesStarting w (l @ t # r) =
     (if prefix w l then [] else l) @ t # removeLinesStarting w r"
proof -
  from assms have tw: "takeWhile (\<lambda>c. \<not> isLineTerminator c) (l @ t # r) = l"
    and dw: "dropWhile (\<lambda>c. \<not> isLineTerminator c) (l @ t # r) = t # r"
    by (simp_all add: takeWhile_append2 dropWhile_append2)
  show ?thesis by (subst removeLinesStarting.simps) (simp add: tw dw)
qed

lemma lines_induct [case_names last line]:
  assumes "\<And>l. \<forall>c\<in>set l. \<not> isLineTerminator c \<Longrightarrow> P l"
    and "\<And>l t r. \<forall>c\<in>set l. \<not> isLineTerminator c \<Longrightarrow> isLineTerminator t \<Longrightarrow> P r \<Longrightarrow> P (l @ t # r)"
  shows "P s"
proof (induction s rule: length_induct)
  case (1 s)
  let ?l = "takeWhile (\<lambda>c. \<not> isLineTerminator c) s"
  let ?d = "dropWhile (\<lambda>c. \<not> isLineTerminator c) s"
  have l: "\<forall>c\<in>set ?l. \<not> isLineTerminator c" by (auto dest: set_takeWhileD)
  show ?case
  proof (cases ?d)
    case Nil
    then have "s = ?l" by (metis append_Nil2 takeWhile_dropWhile_id)
    with l assms(1) [of ?l] show ?thesis by simp
  next
    case (Cons t r)
    then have s: "s = ?l @ t # r" by (metis takeWhile_dropWhile_id)
    have t: "isLineTerminator t" using Cons by (metis hd_dropWhile list.sel(1) list.distinct(1))
    have "length (t # r) \<le> length s" using Cons by (metis length_dropWhile_le)
    then have "length r < length s" by simp
    with 1 have "P r" by blast
    with l t assms(2) [of ?l t r] s show ?thesis by simp
  qed
qed

text \<open>Gluing two texts at a line terminator.\<close>

lemma startsInnerLine_glue:
  assumes "startsInnerLine w (a @ t # b)" and "t \<notin> set w"
  shows "startsInnerLine w a \<or> startsLine w b"
proof -
  from assms(1) obtain u t' v where eq: "a @ t # b = u @ t' # v"
    and t': "isLineTerminator t'" and pre: "prefix w v"
    by (auto simp add: startsInnerLine_def)
  from eq consider us where "a = u @ us" "us @ t # b = t' # v"
    | us where "a @ us = u" "t # b = us @ t' # v"
    by (auto simp add: append_eq_append_conv2)
  then show ?thesis
  proof cases
    case 1
    show ?thesis
    proof (cases us)
      case Nil
      with 1 pre show ?thesis by (simp add: startsLine_def)
    next
      case (Cons x us')
      with 1 have a: "a = u @ t' # us'" and v: "v = us' @ t # b" by simp_all
      from pre v assms(2) have "prefix w us'"
        by (auto simp add: prefix_append prefix_Cons)
      with a t' show ?thesis by (auto simp add: startsInnerLine_def)
    qed
  next
    case 2
    show ?thesis
    proof (cases us)
      case Nil
      with 2 pre show ?thesis by (simp add: startsLine_def)
    next
      case (Cons x us')
      with 2 have "b = us' @ t' # v" by simp
      with t' pre show ?thesis by (auto simp add: startsLine_def startsInnerLine_def)
    qed
  qed
qed

lemma startsLine_glue:
  assumes "startsLine w (a @ t # b)" and "t \<notin> set w" and "w \<noteq> []"
  shows "startsLine w a \<or> startsLine w b"
proof -
  from assms(1) consider "prefix w (a @ t # b)" | "startsInnerLine w (a @ t # b)"
    by (auto simp add: startsLine_def)
  then show ?thesis
  proof cases
    case 1
    with assms(2) have "prefix w a" by (auto simp add: prefix_append prefix_Cons)
    then show ?thesis by (simp add: startsLine_def)
  next
    case 2
    with assms(2) show ?thesis using startsInnerLine_glue by (auto simp add: startsLine_def)
  qed
qed

lemma no_terminator_no_inner:
  "\<forall>c\<in>set l. \<not> isLineTerminator c \<Longrightarrow> \<not> startsInnerLine w l"
  by (auto simp add: startsInnerLine_def)

lemma startsInnerLine_infix:
  assumes "startsInnerLine w y"
  shows "startsInnerLine w (a @ y @ b)"
proof -
  from assms obtain u t v where "y = u @ t # v" "isLineTerminator t" "prefix w v"
    by (auto simp add: startsInnerLine_def)
  then have "a @ y @ b = (a @ u) @ t # (v @ b)" "prefix w (v @ b)"
    by (simp_all add: prefix_prefix)
  with \<open>isLineTerminator t\<close> show ?thesis unfolding startsInnerLine_def by blast
qed

lemma startsInnerLine_after:
  "isLineTerminator t \<Longrightarrow> startsLine w b \<Longrightarrow> startsInnerLine w (a @ t # b)"
proof -
  assume t: "isLineTerminator t" and "startsLine w b"
  then consider "prefix w b" | "startsInnerLine w b" by (auto simp add: startsLine_def)
  then show ?thesis
  proof cases
    case 1
    with t show ?thesis by (auto simp add: startsInnerLine_def)
  next
    case 2
    then have "startsInnerLine w ((a @ [t]) @ b @ [])" by (rule startsInnerLine_infix)
    then show ?thesis by simp
  qed
qed

text \<open>Removing the lines that start with a word leaves no line that starts with it.\<close>

lemma removeLinesStarting_clean:
  assumes "w \<noteq> []" and "\<forall>c\<in>set w. \<not> isLineTerminator c"
  shows "\<not> startsLine w (removeLinesStarting w s)"
proof (induction s rule: lines_induct)
  case (last l)
  then have "\<not> startsInnerLine w (if prefix w l then [] else l)"
    by (auto simp add: no_terminator_no_inner)
  with last assms(1) show ?case
    by (auto simp add: removeLinesStarting_last startsLine_def)
next
  case (line l t r)
  let ?l = "if prefix w l then [] else l"
  have "\<not> startsLine w ?l"
    using line(1) assms(1) by (auto simp add: startsLine_def no_terminator_no_inner)
  moreover have "t \<notin> set w" using line(2) assms(2) by auto
  ultimately have "\<not> startsLine w (?l @ t # removeLinesStarting w r)"
    using line(3) assms(1) startsLine_glue by blast
  with line(1,2) show ?case by (simp add: removeLinesStarting_line)
qed

text \<open>Removing the lines that start with one word creates no line that starts with another.\<close>

lemma removeLinesStarting_keeps_clean:
  assumes "w \<noteq> []" and "\<forall>c\<in>set w. \<not> isLineTerminator c"
  shows "\<not> startsLine w s \<Longrightarrow> \<not> startsLine w (removeLinesStarting w' s)"
proof (induction s rule: lines_induct)
  case (last l)
  with assms(1) show ?case
    by (auto simp add: removeLinesStarting_last startsLine_def startsInnerLine_def)
next
  case (line l t r)
  let ?l = "if prefix w' l then [] else l"
  have "\<not> startsLine w r"
    using line(2,4) startsInnerLine_after [of t w r l] by (auto simp add: startsLine_def)
  then have r: "\<not> startsLine w (removeLinesStarting w' r)" by (rule line(3))
  have "\<not> prefix w l" using line(4) by (auto simp add: startsLine_def prefix_prefix)
  then have "\<not> startsLine w ?l"
    using line(1) assms(1) by (auto simp add: startsLine_def no_terminator_no_inner)
  moreover have "t \<notin> set w" using line(2) assms(2) by auto
  ultimately have "\<not> startsLine w (?l @ t # removeLinesStarting w' r)"
    using r assms(1) startsLine_glue by blast
  with line(1,2) show ?case by (simp add: removeLinesStarting_line)
qed

lemma removeLinesStarting_keeps_inner:
  assumes "w \<noteq> []" and "\<forall>c\<in>set w. \<not> isLineTerminator c"
  shows "\<not> startsInnerLine w s \<Longrightarrow> \<not> startsInnerLine w (removeLinesStarting w' s)"
proof (induction s rule: lines_induct)
  case (last l)
  then show ?case
    by (auto simp add: removeLinesStarting_last no_terminator_no_inner startsInnerLine_def)
next
  case (line l t r)
  let ?l = "if prefix w' l then [] else l"
  have "\<not> startsLine w r"
    using line(2,4) startsInnerLine_after [of t w r l] by auto
  then have r: "\<not> startsLine w (removeLinesStarting w' r)"
    using assms by (rule removeLinesStarting_keeps_clean [rotated 2])
  have "\<not> startsInnerLine w ?l"
    using line(1) by (auto simp add: no_terminator_no_inner startsInnerLine_def)
  moreover have "t \<notin> set w" using line(2) assms(2) by auto
  ultimately have "\<not> startsInnerLine w (?l @ t # removeLinesStarting w' r)"
    using r startsInnerLine_glue by blast
  with line(1,2) show ?case by (simp add: removeLinesStarting_line)
qed

text \<open>A text none of whose lines starts with the word is left as it is.\<close>

lemma removeLinesStarting_id:
  "\<not> startsLine w s \<Longrightarrow> removeLinesStarting w s = s"
proof (induction s rule: lines_induct)
  case (last l)
  then show ?case by (auto simp add: removeLinesStarting_last startsLine_def)
next
  case (line l t r)
  have "\<not> startsLine w r"
    using line(2,4) startsInnerLine_after [of t w r l] by (auto simp add: startsLine_def)
  then have "removeLinesStarting w r = r" by (rule line(3))
  moreover have "\<not> prefix w l" using line(4) by (auto simp add: startsLine_def prefix_prefix)
  ultimately show ?case using line(1,2) by (simp add: removeLinesStarting_line)
qed

lemma trim_keeps_inner: "\<not> startsInnerLine w s \<Longrightarrow> \<not> startsInnerLine w (trim s)"
  using trim_decomp [of s] startsInnerLine_infix by metis

lemma formatBody_outputLines: "formatBody s = join [LF] (outputLines (stripPreamble s))"
  by (simp add: formatBody_def outputLines_def)

lemma stripPreamble_unfold:
  "stripPreamble s =
     trim (removeLinesStarting (js ''Summary'')
       (trim (removeLinesStarting (js ''Introduction'')
         (trim (removeLinesStarting (js ''#'') (replaceCRLF (trim s)))))))"
  by (simp add: stripPreamble_def)

section \<open>The three words\<close>

lemma preambleWords_props:
  assumes "w \<in> set preambleWords"
  shows "w \<noteq> []" and "\<forall>c\<in>set w. \<not> isLineTerminator c" and "\<forall>c\<in>set w. \<not> isTrimmable c"
    and "\<not> isBullet (hd w)" and "\<not> isDigit (hd w)"
  using assms
  by (auto simp add: preambleWords_def js_def isLineTerminator_def isTrimmable_def
      isWhiteSpace_def isBullet_def isDigit_def)

lemma preambleWords_no_LF: "w \<in> set preambleWords \<Longrightarrow> LF \<notin> set w"
  using preambleWords_props(2) [of w] by (auto simp add: isLineTerminator_def LF_def)

lemma LF_terminator: "isLineTerminator LF"
  by (simp add: isLineTerminator_def LF_def)

lemma terminator_trimmable: "isLineTerminator c \<Longrightarrow> isTrimmable c"
  by (simp add: isTrimmable_def)

section \<open>No inner line of the stripped text starts with one of the words\<close>

lemma not_startsLine_inner: "\<not> startsLine w s \<Longrightarrow> \<not> startsInnerLine w s"
  by (simp add: startsLine_def)

lemma stripPreamble_inner:
  assumes "w \<in> set preambleWords"
  shows "\<not> startsInnerLine w (stripPreamble s)"
proof -
  note p = preambleWords_props(1,2) [OF assms]
  let ?x0 = "replaceCRLF (trim s)"
  let ?x1 = "removeLinesStarting (js ''#'') ?x0"
  let ?x3 = "removeLinesStarting (js ''Introduction'') (trim ?x1)"
  let ?x5 = "removeLinesStarting (js ''Summary'') (trim ?x3)"
  have eq: "stripPreamble s = trim ?x5" by (simp add: stripPreamble_unfold)
  from assms consider "w = js ''#''" | "w = js ''Introduction''" | "w = js ''Summary''"
    by (auto simp add: preambleWords_def)
  then have "\<not> startsInnerLine w ?x5"
  proof cases
    case 1
    have "\<not> startsLine w ?x1" unfolding 1 [symmetric] using p by (rule removeLinesStarting_clean)
    then have "\<not> startsInnerLine w (trim ?x1)" by (simp add: not_startsLine_inner trim_keeps_inner)
    then have "\<not> startsInnerLine w ?x3" using p by (simp add: removeLinesStarting_keeps_inner)
    then have "\<not> startsInnerLine w (trim ?x3)" by (rule trim_keeps_inner)
    then show ?thesis using p by (simp add: removeLinesStarting_keeps_inner)
  next
    case 2
    have "\<not> startsLine w ?x3" unfolding 2 [symmetric] using p by (rule removeLinesStarting_clean)
    then have "\<not> startsInnerLine w (trim ?x3)" by (simp add: not_startsLine_inner trim_keeps_inner)
    then show ?thesis using p by (simp add: removeLinesStarting_keeps_inner)
  next
    case 3
    have "\<not> startsLine w ?x5" unfolding 3 [symmetric] using p by (rule removeLinesStarting_clean)
    then show ?thesis by (rule not_startsLine_inner)
  qed
  then show ?thesis unfolding eq by (rule trim_keeps_inner)
qed

section \<open>The lines of the body\<close>

lemma startsWithMarker_hd: "startsWithMarker l \<Longrightarrow> l \<noteq> [] \<and> (isBullet (hd l) \<or> isDigit (hd l))"
  by (cases l) (auto simp add: startsWithMarker_def)

lemma startsWithMarker_dash: "startsWithMarker (js ''- '' @ l)"
  by (simp add: startsWithMarker_def js_def isBullet_def)

lemma formatLine_cases:
  assumes "formatLine l \<noteq> []"
  shows "trim l \<noteq> []"
    and "(formatLine l = trim l \<and> startsWithMarker (trim l)) \<or> formatLine l = js ''- '' @ trim l"
  using assms by (auto simp add: formatLine_def split: if_splits)

lemma startsInnerLine_Cons:
  assumes "startsInnerLine w (c # s)" and "\<not> isLineTerminator c"
  shows "startsInnerLine w s"
proof -
  from assms(1) obtain u t v where eq: "c # s = u @ t # v" and t: "isLineTerminator t"
    and pre: "prefix w v" by (auto simp add: startsInnerLine_def)
  from eq t assms(2) obtain u' where "u = c # u'" by (cases u) auto
  with eq have "s = u' @ t # v" by simp
  with t pre show ?thesis by (auto simp add: startsInnerLine_def)
qed

lemma dash_not_terminator: "\<not> isLineTerminator 0x2D" "\<not> isLineTerminator 0x20"
  "\<not> isTrimmable 0x2D"
  by (simp_all add: isLineTerminator_def isTrimmable_def isWhiteSpace_def)

lemma formatLine_props:
  assumes l: "formatLine l0 \<noteq> []" and lf: "LF \<notin> set l0"
    and inner: "\<forall>w\<in>set preambleWords. \<not> startsInnerLine w l0"
  shows "LF \<notin> set (formatLine l0)"
    and "\<not> isTrimmable (hd (formatLine l0))"
    and "\<not> isTrimmable (last (formatLine l0))"
    and "startsWithMarker (formatLine l0)"
    and "\<forall>w\<in>set preambleWords. \<not> startsLine w (formatLine l0)"
proof -
  note t = formatLine_cases [OF l]
  have ends: "\<not> isTrimmable (hd (trim l0))" "\<not> isTrimmable (last (trim l0))"
    using t(1) by (rule trim_ends)+
  have sub: "LF \<notin> set (trim l0)" using lf set_trim [of l0] by auto
  have tin: "\<forall>w\<in>set preambleWords. \<not> startsInnerLine w (trim l0)"
    using inner by (simp add: trim_keeps_inner)
  show "LF \<notin> set (formatLine l0)"
    using t(2) sub by (auto simp add: js_def LF_def)
  show "\<not> isTrimmable (hd (formatLine l0))"
    using t(2) ends(1) by (auto simp add: js_def dash_not_terminator)
  show "\<not> isTrimmable (last (formatLine l0))"
    using t ends(2) by auto
  show m: "startsWithMarker (formatLine l0)"
    using t(2) by (auto simp add: startsWithMarker_dash)
  show "\<forall>w\<in>set preambleWords. \<not> startsLine w (formatLine l0)"
  proof
    fix w assume w: "w \<in> set preambleWords"
    have "\<not> prefix w (formatLine l0)"
    proof
      assume "prefix w (formatLine l0)"
      with preambleWords_props(1) [OF w] have "hd w = hd (formatLine l0)"
        by (auto simp add: prefix_def)
      with startsWithMarker_hd [OF m] preambleWords_props(4,5) [OF w] show False by auto
    qed
    moreover have "\<not> startsInnerLine w (formatLine l0)"
    proof
      assume a: "startsInnerLine w (formatLine l0)"
      from t(2) show False
      proof
        assume "formatLine l0 = trim l0 \<and> startsWithMarker (trim l0)"
        with a tin w show False by auto
      next
        assume "formatLine l0 = js ''- '' @ trim l0"
        with a have "startsInnerLine w (0x2D # 0x20 # trim l0)" by (simp add: js_def)
        then have "startsInnerLine w (trim l0)"
          using dash_not_terminator startsInnerLine_Cons by blast
        with tin w show False by auto
      qed
    qed
    ultimately show "\<not> startsLine w (formatLine l0)" by (simp add: startsLine_def)
  qed
qed

lemma split_nl_inner:
  assumes "\<not> startsInnerLine w s" and "l \<in> set (split_nl s)"
  shows "\<not> startsInnerLine w l"
  using assms split_nl_infix [of l s] startsInnerLine_infix by metis

lemma outputLines_props:
  assumes "l \<in> set (outputLines s)"
    and "\<forall>w\<in>set preambleWords. \<not> startsInnerLine w s"
  shows "l \<noteq> []" and "LF \<notin> set l" and "\<not> isTrimmable (hd l)" and "\<not> isTrimmable (last l)"
    and "startsWithMarker l" and "\<forall>w\<in>set preambleWords. \<not> startsLine w l"
proof -
  from assms(1) obtain l0 where l0: "l0 \<in> set (split_nl s)" and l: "l = formatLine l0"
    and ne: "formatLine l0 \<noteq> []"
    by (auto simp add: outputLines_def)
  have lf: "LF \<notin> set l0" using l0 by (rule split_nl_no_LF)
  have inner: "\<forall>w\<in>set preambleWords. \<not> startsInnerLine w l0"
    using assms(2) l0 split_nl_inner by blast
  show "l \<noteq> []" using l ne by simp
  show "LF \<notin> set l" "\<not> isTrimmable (hd l)" "\<not> isTrimmable (last l)" "startsWithMarker l"
    "\<forall>w\<in>set preambleWords. \<not> startsLine w l"
    unfolding l using formatLine_props [OF ne lf inner] by blast+
qed

lemma formatLine_fixed:
  assumes "l \<noteq> []" and "\<not> isTrimmable (hd l)" and "\<not> isTrimmable (last l)"
    and "startsWithMarker l"
  shows "formatLine l = l"
  using assms by (simp add: formatLine_def trim_id)

section \<open>Texts without a CR LF pair\<close>

lemma replaceCRLF_LF: "replaceCRLF (LF # r) = LF # replaceCRLF r"
  by (cases r) (simp_all add: LF_def CR_def)

lemma replaceCRLF_no_LF: "LF \<notin> set l \<Longrightarrow> replaceCRLF l = l"
  by (induction l rule: replaceCRLF.induct) auto

lemma replaceCRLF_line:
  assumes "LF \<notin> set l" and "l \<noteq> []" and "last l \<noteq> CR"
  shows "replaceCRLF (l @ LF # r) = l @ LF # replaceCRLF r"
  using assms
proof (induction l)
  case Nil
  then show ?case by simp
next
  case (Cons c l)
  show ?case
  proof (cases l)
    case Nil
    with Cons.prems show ?thesis by (simp add: replaceCRLF_LF)
  next
    case l: (Cons d l')
    with Cons.prems have "d \<noteq> LF" by auto
    with l Cons.prems Cons.IH show ?thesis by simp
  qed
qed

lemma replaceCRLF_join:
  assumes "\<forall>l\<in>set ls. LF \<notin> set l \<and> l \<noteq> [] \<and> last l \<noteq> CR"
  shows "replaceCRLF (join [LF] ls) = join [LF] ls"
  using assms
proof (induction ls)
  case Nil
  then show ?case by simp
next
  case (Cons l ls)
  show ?case
  proof (cases "ls = []")
    case True
    with Cons.prems show ?thesis by (simp add: replaceCRLF_no_LF)
  next
    case False
    with Cons show ?thesis by (simp add: join_Cons replaceCRLF_line)
  qed
qed

lemma CR_trimmable: "isTrimmable CR"
  by (simp add: isTrimmable_def isLineTerminator_def CR_def)

section \<open>No line of the body starts with one of the words\<close>

lemma not_startsLine_Nil: "w \<noteq> [] \<Longrightarrow> \<not> startsLine w []"
  by (simp add: startsLine_def startsInnerLine_def)

lemma join_clean:
  assumes "w \<noteq> []" and "LF \<notin> set w" and "\<forall>l\<in>set ls. \<not> startsLine w l"
  shows "\<not> startsLine w (join [LF] ls)"
  using assms(3)
proof (induction ls)
  case Nil
  with assms(1) show ?case by (simp add: not_startsLine_Nil)
next
  case (Cons l ls)
  show ?case
  proof (cases "ls = []")
    case True
    with Cons.prems show ?thesis by simp
  next
    case False
    have "\<not> startsLine w (l @ LF # join [LF] ls)"
      using Cons assms(1,2) startsLine_glue [of w l LF "join [LF] ls"] by auto
    with False show ?thesis by (simp add: join_Cons)
  qed
qed

lemma join_ends:
  assumes "ls \<noteq> []" and "\<forall>l\<in>set ls. l \<noteq> []"
  shows "join sep ls \<noteq> []" and "hd (join sep ls) = hd (hd ls)"
    and "last (join sep ls) = last (last ls)"
  using assms
proof (induction ls)
  case Nil
  {
    case 1 then show ?case by simp
  next
    case 2 then show ?case by simp
  next
    case 3 then show ?case by simp
  }
next
  case (Cons l ls)
  {
    case 1
    then show ?case by (cases "ls = []") (simp_all add: join_Cons)
  next
    case 2
    then show ?case by (cases "ls = []") (simp_all add: join_Cons)
  next
    case 3
    then show ?case using Cons.IH(1,3) by (cases "ls = []") (simp_all add: join_Cons)
  }
qed

section \<open>Formatting the formatted text\<close>

lemma removeLinesStarting_terminator:
  "isLineTerminator t \<Longrightarrow> removeLinesStarting w (t # r) = t # removeLinesStarting w r"
  using removeLinesStarting_line [of "[]" t w r] by simp

lemma sectionHeader_title:
  obtains title where "sectionHeader t = title @ [LF, LF]"
    and "\<forall>c\<in>set title. \<not> isLineTerminator c" and "prefix (js ''#'') title"
    and "title \<noteq> []" and "\<not> isTrimmable (hd title)" and "last title \<noteq> CR"
proof (cases t)
  case INSIGHTS
  show ?thesis
    by (rule that [of "js ''## Key Research Insights''"])
      (simp_all add: INSIGHTS js_def isLineTerminator_def isTrimmable_def isWhiteSpace_def CR_def)
next
  case ACHIEVEMENTS
  show ?thesis
    by (rule that [of "js ''## Notable Achievements''"])
      (simp_all add: ACHIEVEMENTS js_def isLineTerminator_def isTrimmable_def isWhiteSpace_def CR_def)
next
  case RESEARCH_IDEAS
  show ?thesis
    by (rule that [of "js ''## Research Opportunities''"])
      (simp_all add: RESEARCH_IDEAS js_def isLineTerminator_def isTrimmable_def isWhiteSpace_def CR_def)
qed

lemma formatBody_header: "formatBody (sectionHeader t) = []"
  by (cases t) (simp_all add: string_defs)

lemma stripPreamble_formatted:
  assumes ne: "ls \<noteq> []"
    and lines: "\<forall>l\<in>set ls. l \<noteq> [] \<and> LF \<notin> set l \<and> \<not> isTrimmable (hd l)
        \<and> \<not> isTrimmable (last l) \<and> (\<forall>w\<in>set preambleWords. \<not> startsLine w l)"
  shows "stripPreamble (sectionHeader t @ join [LF] ls) = join [LF] ls"
proof -
  let ?B = "join [LF] ls"
  obtain title where h: "sectionHeader t = title @ [LF, LF]"
    and title: "\<forall>c\<in>set title. \<not> isLineTerminator c" "prefix (js ''#'') title"
      "title \<noteq> []" "\<not> isTrimmable (hd title)" "last title \<noteq> CR"
    by (rule sectionHeader_title)
  have nonempty: "\<forall>l\<in>set ls. l \<noteq> []" using lines by simp
  note B = join_ends [OF ne nonempty, of "[LF]"]
  have hdB: "\<not> isTrimmable (hd ?B)" using B(2) lines ne by simp
  have lastB: "\<not> isTrimmable (last ?B)" using B(3) lines ne by simp
  have trimB: "trim ?B = ?B" using B(1) hdB lastB by (rule trim_id)
  have clean: "\<not> startsLine w ?B" if "w \<in> set preambleWords" for w
    using preambleWords_props(1) [OF that] preambleWords_no_LF [OF that] lines that
    by (intro join_clean) auto
  have words: "js ''#'' \<in> set preambleWords" "js ''Introduction'' \<in> set preambleWords"
    "js ''Summary'' \<in> set preambleWords"
    by (simp_all add: preambleWords_def)
  have 1: "trim (sectionHeader t @ ?B) = sectionHeader t @ ?B"
  proof (rule trim_id)
    show "sectionHeader t @ ?B \<noteq> []" using h by simp
    show "\<not> isTrimmable (hd (sectionHeader t @ ?B))" using h title(3,4) by simp
    show "\<not> isTrimmable (last (sectionHeader t @ ?B))" using B(1) lastB by simp
  qed
  have "replaceCRLF ?B = ?B"
  proof (rule replaceCRLF_join, rule ballI)
    fix l assume "l \<in> set ls"
    with lines CR_trimmable show "LF \<notin> set l \<and> l \<noteq> [] \<and> last l \<noteq> CR" by auto
  qed
  moreover have "LF \<notin> set title" using title(1) LF_terminator by auto
  ultimately have 2: "replaceCRLF (sectionHeader t @ ?B) = sectionHeader t @ ?B"
    using title(3,5) h by (simp add: replaceCRLF_line replaceCRLF_LF)
  have "removeLinesStarting (js ''#'') (title @ LF # LF # ?B) = LF # LF # ?B"
    using title(1,2) LF_terminator clean [OF words(1)]
    by (simp add: removeLinesStarting_line removeLinesStarting_terminator
        removeLinesStarting_id)
  then have 3: "removeLinesStarting (js ''#'') (sectionHeader t @ ?B) = LF # LF # ?B"
    using h by simp
  have 4: "trim (LF # LF # ?B) = ?B"
    using trimB LF_terminator by (simp add: trim_Cons_space terminator_trimmable)
  show ?thesis
    unfolding stripPreamble_unfold 1 2 3 4
    using clean [OF words(2)] clean [OF words(3)] trimB
    by (simp add: removeLinesStarting_id)
qed

lemma outputLines_formatted:
  assumes "\<forall>l\<in>set ls. l \<noteq> [] \<and> LF \<notin> set l \<and> \<not> isTrimmable (hd l)
        \<and> \<not> isTrimmable (last l) \<and> startsWithMarker l"
  shows "outputLines (join [LF] ls) = ls"
proof (cases "ls = []")
  case True
  then show ?thesis by (simp add: outputLines_def formatLine_def)
next
  case False
  with assms have "split_nl (join [LF] ls) = ls" by (simp add: split_nl_join)
  moreover have "map formatLine ls = ls"
    using assms by (simp add: formatLine_fixed map_idI)
  moreover have "filter (\<lambda>l. l \<noteq> []) ls = ls" using assms by simp
  ultimately show ?thesis by (simp add: outputLines_def)
qed

lemma formatBody_formatted: "formatBody (sectionHeader t @ formatBody s) = formatBody s"
proof -
  let ?ls = "outputLines (stripPreamble s)"
  have inner: "\<forall>w\<in>set preambleWords. \<not> startsInnerLine w (stripPreamble s)"
    by (simp add: stripPreamble_inner)
  note props = outputLines_props [OF _ inner]
  show ?thesis
  proof (cases "?ls = []")
    case True
    then show ?thesis by (simp add: formatBody_outputLines [of s] formatBody_header)
  next
    case False
    have "stripPreamble (sectionHeader t @ join [LF] ?ls) = join [LF] ?ls"
      using False props by (intro stripPreamble_formatted) auto
    moreover have "outputLines (join [LF] ?ls) = ?ls"
      using props by (intro outputLines_formatted) auto
    ultimately show ?thesis
      by (simp add: formatBody_outputLines)
  qed
qed

lemma split_nl_formatBody:
  assumes "formatBody s \<noteq> []"
  shows "split_nl (formatBody s) = outputLines (stripPreamble s)"
proof -
  have inner: "\<forall>w\<in>set preambleWords. \<not> startsInnerLine w (stripPreamble s)"
    by (simp add: stripPreamble_inner)
  from assms have "outputLines (stripPreamble s) \<noteq> []"
    by (auto simp add: formatBody_outputLines)
  moreover have "\<forall>l\<in>set (outputLines (stripPreamble s)). LF \<notin> set l"
    using outputLines_props(2) [OF _ inner] by blast
  ultimately show ?thesis
    by (simp add: formatBody_outputLines split_nl_join)
qed

lemma formatBody_lines_marked:
  assumes "formatBody s \<noteq> []" and "l \<in> set (split_nl (formatBody s))"
  shows "startsWithMarker l"
proof -
  have inner: "\<forall>w\<in>set preambleWords. \<not> startsInnerLine w (stripPreamble s)"
    by (simp add: stripPreamble_inner)
  from assms have "l \<in> set (outputLines (stripPreamble s))"
    by (simp add: split_nl_formatBody)
  then show ?thesis using inner by (rule outputLines_props(5))
qed

text \<open>
  C5: for every raw text and every kind, formatting the formatted text gives the same
  text again: the heading is removed as a line that starts with \<^verbatim>\<open>#\<close> and put back, and
  the body is the body of the first pass, every line of which starts with a numbered
  marker or a bullet character.
\<close>

theorem format_formatted:
  "validateAndFormatResponse (validateAndFormatResponse s t) t = validateAndFormatResponse s t
   \<and> formatBody (validateAndFormatResponse s t) = formatBody s
   \<and> (formatBody s \<noteq> [] \<longrightarrow>
        (\<forall>l\<in>set (split_nl (formatBody s)). startsWithMarker l))"
  using formatBody_lines_marked [of s]
  by (auto simp add: validateAndFormatResponse_def formatBody_formatted)

theorem format_formatted_witness:
  "formatBody (js ''Point one\<newline>2. Point two'') = js ''- Point one\<newline>2. Point two''
   \<and> startsWithMarker (js ''- Point one'') \<and> startsWithMarker (js ''2. Point two'')
   \<and> validateAndFormatResponse
        (validateAndFormatResponse (js ''Point one\<newline>2. Point two'') INSIGHTS) INSIGHTS =
       validateAndFormatResponse (js ''Point one\<newline>2. Point two'') INSIGHTS"
proof -
  have body: "formatBody (js ''Point one\<newline>2. Point two'') =
      js ''- Point one\<newline>2. Point two''"
    by (simp add: string_defs)
  have lines: "split_nl (js ''- Point one\<newline>2. Point two'') =
      [js ''- Point one'', js ''2. Point two'']"
    by (simp add: js_def LF_def)
  have "js ''- Point one\<newline>2. Point two'' \<noteq> []"
    by (simp add: js_def)
  with format_formatted [of "js ''Point one\<newline>2. Point two''" INSIGHTS] body lines
  show ?thesis by simp
qed

section \<open>Texts without preamble\<close>

lemma formatLine_markLine: "formatLine l = (if trim l = [] then [] else markLine (trim l))"
  by (simp add: formatLine_def markLine_def)

lemma markLine_nonempty: "l \<noteq> [] \<Longrightarrow> markLine l \<noteq> []"
  by (simp add: markLine_def)

lemma outputLines_trimmedLines: "outputLines s = map markLine (trimmedLines s)"
proof -
  have "filter (\<lambda>l. l \<noteq> []) (map formatLine ls) =
      map markLine (filter (\<lambda>l. l \<noteq> []) (map trim ls))" for ls
    by (induction ls) (simp_all add: formatLine_markLine markLine_nonempty)
  then show ?thesis by (simp add: outputLines_def trimmedLines_def)
qed

lemma trimmedLines_Cons_space:
  assumes "isTrimmable c"
  shows "trimmedLines (c # s) = trimmedLines s"
proof (cases "c = LF")
  case True
  then show ?thesis by (simp add: trimmedLines_def)
next
  case False
  obtain l ls where "split_nl s = l # ls" by (cases "split_nl s") simp_all
  with False assms show ?thesis by (simp add: trimmedLines_def trim_Cons_space)
qed

lemma trimmedLines_snoc_space:
  assumes "isTrimmable c"
  shows "trimmedLines (s @ [c]) = trimmedLines s"
proof (cases "c = LF")
  case True
  then show ?thesis by (simp add: trimmedLines_def split_nl_snoc)
next
  case False
  have "split_nl s = butlast (split_nl s) @ [last (split_nl s)]" by simp
  then have "map trim (split_nl s) =
      map trim (butlast (split_nl s)) @ [trim (last (split_nl s))]"
    by (metis list.simps(8,9) map_append)
  with False assms show ?thesis
    by (simp add: trimmedLines_def split_nl_snoc trim_snoc_space)
qed

lemma trimmedLines_dropWhile: "trimmedLines (dropWhile isTrimmable s) = trimmedLines s"
  by (induction s) (simp_all add: trimmedLines_Cons_space)

lemma trimmedLines_dropWhile_rev:
  "trimmedLines (rev (dropWhile isTrimmable (rev s))) = trimmedLines s"
  by (induction s rule: rev_induct) (simp_all add: trimmedLines_snoc_space)

lemma trimmedLines_trim: "trimmedLines (trim s) = trimmedLines s"
  by (simp add: trim_def trimmedLines_dropWhile_rev trimmedLines_dropWhile)

lemma prefix_trim:
  assumes "prefix w l" and "w \<noteq> []" and "\<forall>c\<in>set w. \<not> isTrimmable c"
  shows "prefix w (trim l)"
proof -
  from assms(1) obtain r where l: "l = w @ r" by (auto simp add: prefix_def)
  from assms(2,3) have "\<not> isTrimmable (hd w)" and "\<not> isTrimmable (last w)" by simp_all
  with assms(2) have d: "dropWhile isTrimmable (w @ r) = w @ r"
    and e: "dropWhile isTrimmable (rev w) = rev w"
    by (cases w, simp_all) (cases w rule: rev_cases, simp_all)
  have "dropWhile isTrimmable (rev r @ rev w) =
      (if \<forall>c\<in>set (rev r). isTrimmable c then rev w else dropWhile isTrimmable (rev r) @ rev w)"
    by (simp add: dropWhile_append e)
  then have "\<exists>x. dropWhile isTrimmable (rev (w @ r)) = x @ rev w"
    by (cases "\<forall>c\<in>set (rev r). isTrimmable c") auto
  then obtain x where "trim l = w @ rev x"
    by (auto simp add: trim_def l d)
  then show ?thesis by simp
qed

lemma prefix_first_line:
  assumes "prefix w s" and "LF \<notin> set w"
  shows "prefix w (hd (split_nl s))"
proof -
  obtain l ls where sp: "split_nl s = l # ls" by (cases "split_nl s") simp_all
  have s: "s = join [LF] (l # ls)" using join_split_nl [of s] sp by simp
  show ?thesis
  proof (cases "ls = []")
    case True
    with s sp assms(1) show ?thesis by simp
  next
    case False
    with s have "s = l @ LF # join [LF] ls" by (simp add: join_Cons)
    with assms have "prefix w l" by (auto simp add: prefix_append prefix_Cons)
    with sp show ?thesis by simp
  qed
qed

text \<open>In a text whose only line terminators are line feeds, the lines are those of the split.\<close>

lemma startsLine_split:
  assumes "startsLine w s" and "\<forall>c\<in>set s. isLineTerminator c \<longrightarrow> c = LF" and "LF \<notin> set w"
  shows "\<exists>l\<in>set (split_nl s). prefix w l"
proof -
  from assms(1) consider "prefix w s" | "startsInnerLine w s" by (auto simp add: startsLine_def)
  then show ?thesis
  proof cases
    case 1
    then have "prefix w (hd (split_nl s))" using assms(3) by (rule prefix_first_line)
    moreover have "hd (split_nl s) \<in> set (split_nl s)" by simp
    ultimately show ?thesis by blast
  next
    case 2
    then obtain u t v where s: "s = u @ t # v" and t: "isLineTerminator t" and pre: "prefix w v"
      by (auto simp add: startsInnerLine_def)
    from s t assms(2) have "t = LF" by simp
    with s have "split_nl s = split_nl u @ split_nl v" by (simp add: split_nl_append)
    then have "hd (split_nl v) \<in> set (split_nl s)" by simp
    moreover have "prefix w (hd (split_nl v))" using pre assms(3) by (rule prefix_first_line)
    ultimately show ?thesis by blast
  qed
qed

lemma no_preamble_line:
  assumes w: "w \<in> set preambleWords"
    and lf: "\<forall>c\<in>set s. isLineTerminator c \<longrightarrow> c = LF"
    and lines: "\<forall>l\<in>set (trimmedLines s). \<not> prefix w l"
  shows "\<not> startsLine w s"
proof
  assume "startsLine w s"
  then obtain l where l: "l \<in> set (split_nl s)" and "prefix w l"
    using lf preambleWords_no_LF [OF w] startsLine_split by blast
  then have pre: "prefix w (trim l)"
    using preambleWords_props(1,3) [OF w] by (intro prefix_trim)
  with preambleWords_props(1) [OF w] have "trim l \<noteq> []" by auto
  with l have "trim l \<in> set (trimmedLines s)" by (simp add: trimmedLines_def)
  with lines pre show False by blast
qed

lemma replaceCRLF_no_CR: "CR \<notin> set s \<Longrightarrow> replaceCRLF s = s"
  by (induction s rule: replaceCRLF.induct) auto

lemma CR_terminator: "isLineTerminator CR" "CR \<noteq> LF"
  by (simp_all add: isLineTerminator_def CR_def LF_def)

lemma stripPreamble_plain:
  assumes lf: "\<forall>c\<in>set s. isLineTerminator c \<longrightarrow> c = LF"
    and lines: "\<forall>l\<in>set (trimmedLines s). \<forall>w\<in>set preambleWords. \<not> prefix w l"
  shows "stripPreamble s = trim s"
proof -
  have trim_lf: "\<forall>c\<in>set (trim s). isLineTerminator c \<longrightarrow> c = LF"
    using lf set_trim [of s] by blast
  then have "CR \<notin> set (trim s)" using CR_terminator by blast
  then have 1: "replaceCRLF (trim s) = trim s" by (rule replaceCRLF_no_CR)
  have 2: "removeLinesStarting w (trim s) = trim s" if "w \<in> set preambleWords" for w
    using that trim_lf lines
    by (intro removeLinesStarting_id no_preamble_line) (simp_all add: trimmedLines_trim)
  have words: "js ''#'' \<in> set preambleWords" "js ''Introduction'' \<in> set preambleWords"
    "js ''Summary'' \<in> set preambleWords"
    by (simp_all add: preambleWords_def)
  have 3: "trim (trim s) = trim s"
    by (cases "trim s = []") (simp_all add: trim_id trim_ends)
  show ?thesis
    by (simp add: stripPreamble_unfold 1 2 [OF words(1)] 2 [OF words(2)] 2 [OF words(3)] 3)
qed

lemma trimmedLines_join:
  assumes "\<forall>l\<in>set ls. LF \<notin> set l"
  shows "trimmedLines (join [LF] ls) = filter (\<lambda>l. l \<noteq> []) (map trim ls)"
proof (cases "ls = []")
  case True
  then show ?thesis by (simp add: trimmedLines_def)
next
  case False
  with assms show ?thesis by (simp add: trimmedLines_def split_nl_join)
qed

lemma set_join: "set (join sep ls) \<subseteq> set sep \<union> \<Union> (set ` set ls)"
proof (induction ls)
  case Nil
  then show ?case by simp
next
  case (Cons l ls)
  then show ?case by (cases "ls = []") (auto simp add: join_Cons)
qed

text \<open>
  A text made of lines without line terminators that, trimmed, do not start with one of
  the three words loses nothing before the lines are split: the output has one line for
  every non-blank line of the input.
\<close>

lemma format_plain_lines:
  assumes plain: "\<forall>l\<in>set ls. \<forall>c\<in>set l. \<not> isLineTerminator c"
    and kept: "\<forall>l\<in>set ls. \<forall>w\<in>set preambleWords. \<not> prefix w (trim l)"
  shows "validateAndFormatResponse (join [LF] ls) t =
     sectionHeader t @
     join [LF] (map (\<lambda>l. if startsWithMarker (trim l) then trim l else js ''- '' @ trim l)
       (filter (\<lambda>l. trim l \<noteq> []) ls))"
proof -
  let ?s = "join [LF] ls"
  have no_lf: "\<forall>l\<in>set ls. LF \<notin> set l" using plain LF_terminator by blast
  then have tl: "trimmedLines ?s = filter (\<lambda>l. l \<noteq> []) (map trim ls)"
    by (rule trimmedLines_join)
  have lf: "\<forall>c\<in>set ?s. isLineTerminator c \<longrightarrow> c = LF"
    using plain set_join [of "[LF]" ls] by auto
  have "\<forall>l\<in>set (trimmedLines ?s). \<forall>w\<in>set preambleWords. \<not> prefix w l"
    using kept by (auto simp add: tl)
  with lf have "stripPreamble ?s = trim ?s" by (rule stripPreamble_plain)
  then have "outputLines (stripPreamble ?s) = map markLine (filter (\<lambda>l. l \<noteq> []) (map trim ls))"
    by (simp add: outputLines_trimmedLines trimmedLines_trim tl)
  also have "\<dots> = map (\<lambda>l. if startsWithMarker (trim l) then trim l else js ''- '' @ trim l)
       (filter (\<lambda>l. trim l \<noteq> []) ls)"
    by (induction ls) (simp_all add: markLine_def)
  finally show ?thesis
    by (simp add: validateAndFormatResponse_def formatBody_outputLines)
qed




end
